theory Spec2Isabelle
  imports Complex_Main
begin

text \<open>
  Mastodon Random Picker fetches the public statuses of a Mastodon account page by page,
  keeps them in memory, and shows them one at a time in random order without repeating
  any until the user resets.  This theory embeds the parts of the browser script that
  carry that logic and proves what they do: the sampler \<open>pickRandomStatus\<close> with the
  persisted set of viewed ids, the export and import of snapshots
  (\<open>handleDownloadBackup\<close>, \<open>handleFileUpload\<close>), and the walker \<open>executeFetch\<close> with
  its pause and stop buttons.  The definitions follow the later version of the script
  (\<open>src/unnamed/part_000\<close>, whose line numbers are quoted); where the older \<open>src/app.js\<close>
  differs, its function is embedded beside it under the same name with the suffix
  \<open>_app\<close>.

  What comes from outside the script is an argument of the function that uses it: the
  number \<open>Math.random()\<close> returns, the answer to \<open>window.confirm\<close>, the replies of the
  server, the clicks of the user, the parsed content of an uploaded file.  Rendering
  (\<open>render\<close>, \<open>updateFetchCount\<close>) changes no state and is left out.
\<close>

section \<open>Data model\<close>

text \<open>
  The program keeps plain JavaScript objects received from the Mastodon API (or read back
  from a file it wrote itself).  A status and an account are modelled by the fields the
  program reads.  \<open>new Date(x).getTime()\<close> is a service of the JavaScript runtime: a
  date field is held as the number that call returns, \<open>NaN\<close> for a string that is not a
  date.  Every comparison with \<open>NaN\<close> is false, as in JavaScript.
\<close>

datatype jstime = NaN | Time int

fun time_ge :: "jstime \<Rightarrow> jstime \<Rightarrow> bool" where
  "time_ge (Time a) (Time b) = (a \<ge> b)"
| "time_ge _ _ = False"

fun time_lt :: "jstime \<Rightarrow> jstime \<Rightarrow> bool" where
  "time_lt (Time a) (Time b) = (a < b)"
| "time_lt _ _ = False"

fun time_plus :: "jstime \<Rightarrow> int \<Rightarrow> jstime" where
  "time_plus (Time a) d = Time (a + d)"
| "time_plus NaN d = NaN"

record account =
  account_id :: string
  username :: string
  acct :: string
  url :: string

datatype status = Status
  (status_id: string)
  (created_at: jstime)
  (in_reply_to_id: "string option")
  (reblog: "status option")
  (account: "account option")
  (content: string)

text \<open>Truthiness of a value that is a string or \<open>null\<close>: \<open>null\<close> and \<open>''\<close> are falsy.\<close>

fun truthy :: "string option \<Rightarrow> bool" where
  "truthy None = False"
| "truthy (Some s) = (s \<noteq> [])"

subsection \<open>A JavaScript \<open>Set\<close> of strings\<close>

text \<open>
  A \<open>Set\<close> iterates in insertion order, so it is a list without repetition:
  \<open>Set_add\<close> is \<open>Set.prototype.add\<close>, \<open>new_Set\<close> is \<open>new Set(iterable)\<close>,
  \<open>Set_has\<close> is \<open>Set.prototype.has\<close>, and \<open>Array.from(set)\<close> is the list itself.
\<close>

definition Set_has :: "string list \<Rightarrow> string \<Rightarrow> bool" where
  "Set_has xs x = (x \<in> set xs)"

definition Set_add :: "string \<Rightarrow> string list \<Rightarrow> string list" where
  "Set_add x xs = (if Set_has xs x then xs else xs @ [x])"

definition new_Set :: "string list \<Rightarrow> string list" where
  "new_Set xs = fold Set_add xs []"

subsection \<open>The persistent store\<close>

text \<open>
  \<open>localStorage\<close> is written under two families of keys, \<open>seen_statuses_<id>\<close> (the
  JSON array of the viewed ids) and \<open>cached_data_<id>\<close> (the JSON array of the statuses).
  The two prefixes differ, so no key of one family is a key of the other, and the store
  is a pair of maps indexed by the account id.
\<close>

record store =
  seen_statuses :: "string \<rightharpoonup> string list"
  cached_data :: "string \<rightharpoonup> status list"

subsection \<open>Session state\<close>

datatype fetchType = Initial | Older | Newer

datatype fetchMode = All_statuses | Limit_count | Limit_date

record fetchConfig =
  excludeReplies :: bool
  excludeReblogs :: bool
  mode :: fetchMode
  limitCount :: int
  limitDate :: jstime

text \<open>
  \<open>startDate\<close> and \<open>endDate\<close> are strings in the source, \<open>''\<close> when no bound is set:
  \<open>None\<close> is the empty (falsy) string, \<open>Some t\<close> a non-empty string whose
  \<open>getTime()\<close> is \<open>t\<close>.
\<close>

record displayFilter =
  startDate :: "jstime option"
  endDate :: "jstime option"
  showReplies :: bool
  showReblogs :: bool

datatype error =
    InvalidUrl
  | UserNotFound
  | AccountParseFailed
  | NoAccount
  | NoDomain
  | ApiFailed string
  | NetworkFailed string
  | NoStatuses
  | FetchInterrupted
  | InvalidJson
  | UnknownFormat
  | NoAccountInFile
  | InvalidOutbox
  | SyntaxError
  | TypeError

text \<open>
  \<open>state\<close> is the module-level \<open>state\<close> object together with the two module-level
  flags \<open>pausedRef\<close> and \<open>stopRef\<close> and the browser's \<open>localStorage\<close>.
\<close>

record state =
  urlInput :: string
  loading :: bool
  fetchType :: "fetchType option"
  fetchCount :: nat
  error :: "error option"
  currentAccount :: "account option"
  allStatuses :: "status list"
  currentStatus :: "status option"
  viewedIds :: "string list"
  fetchConfig :: fetchConfig
  displayFilter :: displayFilter
  isPaused :: bool
  pausedRef :: bool
  stopRef :: bool
  localStorage :: store

section \<open>Viewed-set persistence\<close>

definition loadHistory :: "string \<Rightarrow> state \<Rightarrow> state" where
  "loadHistory accountId s =
     (case seen_statuses (localStorage s) accountId of
        Some saved \<Rightarrow> s\<lparr>viewedIds := new_Set saved\<rparr>
      | None \<Rightarrow> s\<lparr>viewedIds := []\<rparr>)"

definition saveHistory :: "string \<Rightarrow> string list \<Rightarrow> state \<Rightarrow> state" where
  "saveHistory accountId ids s =
     s\<lparr>localStorage := (localStorage s)
          \<lparr>seen_statuses := (seen_statuses (localStorage s))(accountId \<mapsto> ids)\<rparr>\<rparr>"

definition clearHistory :: "state \<Rightarrow> state" where
  "clearHistory s =
     (case currentAccount s of
        None \<Rightarrow> s
      | Some a \<Rightarrow> (saveHistory (account_id a) [] s)\<lparr>viewedIds := [], currentStatus := None\<rparr>)"

section \<open>Random sampler\<close>

text \<open>
  What a call of \<open>pickRandomStatus\<close> shows the user: nothing (\<open>NoOp\<close>), the alert that
  no status passes the display filter (\<open>EmptyPool\<close>), the confirmation dialog that
  everything in range has been seen (\<open>Exhausted\<close>), a status (\<open>Picked\<close>), or an uncaught
  exception (\<open>Threw\<close>).
\<close>

datatype outcome = NoOp | EmptyPool | Exhausted | Picked status | Threw

text \<open>The two category filters and the two date filters, in the order of the source.\<close>

definition keepReply :: "status \<Rightarrow> bool" where
  "keepReply s =
     (case reblog s of
        Some r \<Rightarrow> \<not> truthy (in_reply_to_id r)
      | None \<Rightarrow> \<not> truthy (in_reply_to_id s))"

definition dateToCheck :: "status \<Rightarrow> jstime" where
  "dateToCheck s = (case reblog s of Some r \<Rightarrow> created_at r | None \<Rightarrow> created_at s)"

definition displayPool :: "state \<Rightarrow> status list" where
  "displayPool s =
     (let f = displayFilter s;
          pool = allStatuses s;
          pool = (if \<not> showReplies f then filter keepReply pool else pool);
          pool = (if \<not> showReblogs f then filter (\<lambda>x. reblog x = None) pool else pool);
          pool = (case startDate f of
                    None \<Rightarrow> pool
                  | Some start \<Rightarrow> filter (\<lambda>x. time_ge (dateToCheck x) start) pool);
          pool = (case endDate f of
                    None \<Rightarrow> pool
                  | Some e \<Rightarrow> filter (\<lambda>x. time_lt (dateToCheck x) (time_plus e 86400000)) pool)
      in pool)"

definition availableStatuses :: "state \<Rightarrow> status list" where
  "availableStatuses s = filter (\<lambda>x. \<not> Set_has (viewedIds s) (status_id x)) (displayPool s)"

text \<open>
  \<open>Math.random()\<close> and the answer to \<open>window.confirm\<close> come from outside: \<open>u\<close> is the
  number drawn and \<open>yes\<close> the user's answer.  For \<open>0 \<le> u < 1\<close> the index
  \<open>Math.floor(u * n)\<close> is in range; outside that range \<open>availableStatuses[randomIndex]\<close>
  is \<open>undefined\<close>, which is stored in \<open>currentStatus\<close> before \<open>selected.id\<close> throws.
\<close>

definition randomIndex :: "rat \<Rightarrow> nat \<Rightarrow> int" where
  "randomIndex u n = \<lfloor>u * of_nat n\<rfloor>"

definition pickRandomStatus :: "rat \<Rightarrow> bool \<Rightarrow> state \<Rightarrow> outcome \<times> state" where
  "pickRandomStatus u yes s =
     (case currentAccount s of
        None \<Rightarrow> (NoOp, s)
      | Some a \<Rightarrow>
          if allStatuses s = [] then (NoOp, s)
          else if displayPool s = [] then (EmptyPool, s)
          else if availableStatuses s = [] then
            (Exhausted, if yes then clearHistory s else s)
          else
            let i = randomIndex u (length (availableStatuses s)) in
            if 0 \<le> i \<and> i < int (length (availableStatuses s)) then
              let selected = availableStatuses s ! nat i;
                  newViewedIds = Set_add (status_id selected) (viewedIds s)
              in (Picked selected,
                  saveHistory (account_id a) newViewedIds
                    (s\<lparr>currentStatus := Some selected, viewedIds := newViewedIds\<rparr>))
            else (Threw, s\<lparr>currentStatus := None\<rparr>))"

text \<open>
  \<open>pickRandomStatus\<close> of the older \<open>app.js\<close>: no display filter, hence no
  \<open>EmptyPool\<close> alert; the rest is the same.
\<close>

definition pickRandomStatus_app :: "rat \<Rightarrow> bool \<Rightarrow> state \<Rightarrow> outcome \<times> state" where
  "pickRandomStatus_app u yes s =
     (case currentAccount s of
        None \<Rightarrow> (NoOp, s)
      | Some a \<Rightarrow>
          if allStatuses s = [] then (NoOp, s)
          else
            let available = filter (\<lambda>x. \<not> Set_has (viewedIds s) (status_id x)) (allStatuses s) in
            if available = [] then (Exhausted, if yes then clearHistory s else s)
            else
              let i = randomIndex u (length available) in
              if 0 \<le> i \<and> i < int (length available) then
                let selected = available ! nat i;
                    newViewedIds = Set_add (status_id selected) (viewedIds s)
                in (Picked selected,
                    saveHistory (account_id a) newViewedIds
                      (s\<lparr>currentStatus := Some selected, viewedIds := newViewedIds\<rparr>))
              else (Threw, s\<lparr>currentStatus := None\<rparr>))"

subsection \<open>Sequences of picks\<close>

text \<open>
  Between two picks the session may fetch more statuses or change the display filter;
  neither touches the viewed set.  \<open>EnvEv\<close> replaces the collection and the filter,
  \<open>PickEv\<close> is a call of \<open>pickRandomStatus\<close>.
\<close>

datatype event = PickEv rat bool | EnvEv "status list" displayFilter

fun run :: "event list \<Rightarrow> state \<Rightarrow> state" where
  "run [] s = s"
| "run (PickEv u yes # es) s = run es (snd (pickRandomStatus u yes s))"
| "run (EnvEv sts f # es) s = run es (s\<lparr>allStatuses := sts, displayFilter := f\<rparr>)"

text \<open>The statuses returned by the successful picks of a run, in order.\<close>

fun picked :: "event list \<Rightarrow> state \<Rightarrow> status list" where
  "picked [] s = []"
| "picked (PickEv u yes # es) s =
     (case fst (pickRandomStatus u yes s) of
        Picked p \<Rightarrow> p # picked es (snd (pickRandomStatus u yes s))
      | _ \<Rightarrow> picked es (snd (pickRandomStatus u yes s)))"
| "picked (EnvEv sts f # es) s = picked es (s\<lparr>allStatuses := sts, displayFilter := f\<rparr>)"

text \<open>Whether some pick of the run ended in the reset dialog and the user accepted it.\<close>

fun resetIn :: "event list \<Rightarrow> state \<Rightarrow> bool" where
  "resetIn [] s = False"
| "resetIn (PickEv u yes # es) s =
     ((fst (pickRandomStatus u yes s) = Exhausted \<and> yes)
      \<or> resetIn es (snd (pickRandomStatus u yes s)))"
| "resetIn (EnvEv sts f # es) s = resetIn es (s\<lparr>allStatuses := sts, displayFilter := f\<rparr>)"

section \<open>Export and import of snapshots\<close>

text \<open>
  The content of a JSON file after \<open>JSON.parse\<close>, by the shapes the importer tells apart:
  \<open>null\<close>, a number, string or boolean, an array, or an object with the fields the
  importer reads (\<open>None\<close> for an absent field).  \<open>statuses\<close> is \<open>Some\<close> only for an
  array, and \<open>viewedIds\<close>, when present, is an array of strings.  The archive importer \<open>parseActivityPubOutbox\<close> is a pure function of the
  document; a truthy \<open>orderedItems\<close> carries what that function makes of the document:
  the error it throws, or the statuses and the account it returns.
\<close>

datatype jsonContent =
    Null
  | Primitive
  | Array "status list"
  | Object
      (type_field: "string option")
      (timestamp: "string option")
      (orderedItems: "(error + status list \<times> account) option")
      (statuses: "status list option")
      (account_field: "account option")
      (viewedIds_field: "string list option")

definition backupFileName :: "string \<Rightarrow> string \<Rightarrow> string" where
  "backupFileName user now = ''mastodon_backup_'' @ user @ ''_'' @ take 10 now @ ''.json''"

text \<open>
  \<open>handleDownloadBackup\<close>: \<open>now\<close> is \<open>new Date().toISOString()\<close>.  The result is the
  document handed to \<open>downloadJson\<close> with its file name, \<open>None\<close> when nothing is
  downloaded.  \<open>JSON.stringify\<close> followed by \<open>JSON.parse\<close> gives the document back.
\<close>

definition handleDownloadBackup :: "string \<Rightarrow> state \<Rightarrow> (jsonContent \<times> string) option" where
  "handleDownloadBackup now s =
     (case currentAccount s of
        None \<Rightarrow> None
      | Some a \<Rightarrow>
          if length (allStatuses s) > 0 then
            Some (Object (Some ''mastodon-picker-backup'') (Some now) None
                         (Some (allStatuses s)) (Some a) (Some (viewedIds s)),
                  backupFileName (username a) now)
          else None)"

text \<open>
  What the user hands to the file input: nothing, a folder (the unpacked archive; the
  value is what reading \<open>actor.json\<close> and \<open>outbox.json\<close> and parsing them gives), or one
  JSON file (\<open>None\<close> when \<open>JSON.parse\<close> throws).
\<close>

datatype upload =
    NoFile
  | Folder "error + status list \<times> account"
  | JsonFile "jsonContent option"

text \<open>The \<open>try\<close> block of \<open>reader.onload\<close>: the shape test, then the state updates.\<close>

definition detectFormat ::
  "jsonContent \<Rightarrow> error + status list \<times> account option \<times> string list option" where
  "detectFormat j =
     (case j of
        Null \<Rightarrow> Inl TypeError
      | Primitive \<Rightarrow> Inl UnknownFormat
      | Array items \<Rightarrow>
          (case items of
             [] \<Rightarrow> Inl InvalidJson
           | x # _ \<Rightarrow>
               if status_id x = [] \<or> account x = None then Inl InvalidJson
               else Inr (items, account x, None))
      | Object ty ts oi sts acc vids \<Rightarrow>
          if ty = Some ''OrderedCollection'' \<and> oi \<noteq> None then
            (case the oi of
               Inl e \<Rightarrow> Inl e
             | Inr (parsed_statuses, parsed_account) \<Rightarrow>
                 Inr (parsed_statuses, Some parsed_account, None))
          else if ty = Some ''mastodon-picker-backup'' \<and> sts \<noteq> None then
            Inr (the sts, acc,
                 Some (new_Set (case vids of None \<Rightarrow> [] | Some v \<Rightarrow> v)))
          else Inl UnknownFormat)"

definition installAccount :: "account \<Rightarrow> status list \<Rightarrow> state \<Rightarrow> state" where
  "installAccount a sts s =
     (let s1 = s\<lparr>currentAccount := Some a, allStatuses := sts\<rparr>
      in if url a \<noteq> [] then s1\<lparr>urlInput := url a\<rparr> else s1)"

definition handleFileUpload :: "upload \<Rightarrow> state \<Rightarrow> state" where
  "handleFileUpload up s =
     (case up of
        NoFile \<Rightarrow> s
      | Folder r \<Rightarrow>
          (let s0 = s\<lparr>loading := True, error := None, currentStatus := None,
                         currentAccount := None, allStatuses := []\<rparr>
           in case r of
                Inl e \<Rightarrow> s0\<lparr>error := Some e, loading := False\<rparr>
              | Inr (sts, a) \<Rightarrow>
                  (loadHistory (account_id a) (installAccount a sts s0))\<lparr>loading := False\<rparr>)
      | JsonFile parsed \<Rightarrow>
          (let s0 = s\<lparr>loading := True, error := None, currentStatus := None,
                         currentAccount := None, allStatuses := []\<rparr>
           in case parsed of
                None \<Rightarrow> s0\<lparr>error := Some SyntaxError, loading := False\<rparr>
              | Some j \<Rightarrow>
                  (case detectFormat j of
                     Inl e \<Rightarrow> s0\<lparr>error := Some e, loading := False\<rparr>
                   | Inr (sts, None, restoredIds) \<Rightarrow>
                       s0\<lparr>error := Some NoAccountInFile, loading := False\<rparr>
                   | Inr (sts, Some a, restoredIds) \<Rightarrow>
                       (let s1 = installAccount a sts s0;
                            s2 = (case restoredIds of
                                    Some ids \<Rightarrow> saveHistory (account_id a) ids (s1\<lparr>viewedIds := ids\<rparr>)
                                  | None \<Rightarrow> loadHistory (account_id a) s1)
                        in s2\<lparr>loading := False\<rparr>))))"

text \<open>
  The words of the specification for a snapshot of unrecognized shape: the document is
  neither an array of statuses, nor a backup with progress, nor an archive document.
\<close>

definition unrecognized :: "jsonContent \<Rightarrow> bool" where
  "unrecognized j =
     (case j of
        Null \<Rightarrow> True
      | Primitive \<Rightarrow> True
      | Array items \<Rightarrow> False
      | Object ty ts oi sts acc vids \<Rightarrow>
          \<not> (ty = Some ''OrderedCollection'' \<and> oi \<noteq> None) \<and>
          \<not> (ty = Some ''mastodon-picker-backup'' \<and> sts \<noteq> None))"

section \<open>Cursor pagination walker\<close>

subsection \<open>Pause and stop\<close>

definition togglePause :: "state \<Rightarrow> state" where
  "togglePause s =
     (let nextState = \<not> isPaused s in s\<lparr>isPaused := nextState, pausedRef := nextState\<rparr>)"

definition stopFetch :: "state \<Rightarrow> state" where
  "stopFetch s =
     (let s1 = s\<lparr>stopRef := True\<rparr>
      in if pausedRef s1 then s1\<lparr>pausedRef := False, isPaused := False\<rparr> else s1)"

text \<open>
  The walk runs on one thread and gives control away only where it awaits: the pause
  poll (\<open>setTimeout\<close> of 500 ms), the page request, and the pause between two pages
  (\<open>setTimeout\<close> of 400 ms).  A click on the pause or the stop button runs its handler
  during such a wait; of the handlers of the page these two are the ones followed here.
  A click is the button and the time, in milliseconds after the wait began, at which it
  was pressed.
\<close>

datatype action = TogglePause | StopFetch

type_synonym click = "nat \<times> action"

fun doClick :: "click \<Rightarrow> state \<Rightarrow> state" where
  "doClick (t, TogglePause) s = togglePause s"
| "doClick (t, StopFetch) s = stopFetch s"

definition doClicks :: "click list \<Rightarrow> state \<Rightarrow> state" where
  "doClicks cs s = fold doClick cs s"

subsection \<open>The server\<close>

text \<open>
  What a page request comes to: \<open>fetch\<close> or \<open>res.json()\<close> rejects, the response is not
  \<open>ok\<close> (with its \<open>statusText\<close>), or the body is an array of statuses.  A reply is the
  time the request took, in milliseconds, and its result.
\<close>

datatype response = Rejected string | NotOk string | Batch "status list"

type_synonym reply = "nat \<times> response"

subsection \<open>The loop of \<open>executeFetch\<close>\<close>

text \<open>
  The local variables of \<open>executeFetch\<close> that the loop reads and writes.  Two more
  fields record what the loop did: \<open>requests\<close> is every URL passed to \<open>fetch\<close> by the
  loop, in order, and \<open>waits\<close> is every wait the loop completed, with its kind, its
  length in milliseconds and the clicks that fell into it.
\<close>

datatype waitKind = PausePoll | PageRequest | RateLimit

type_synonym wait = "waitKind \<times> nat \<times> click list"

record locals =
  nextMaxId :: "string option"
  sinceId :: "string option"
  sessionCollectedCount :: nat
  requests :: "string list"
  waits :: "wait list"

definition statusesUrl :: "string \<Rightarrow> string \<Rightarrow> fetchConfig \<Rightarrow> locals \<Rightarrow> string" where
  "statusesUrl domain accountId cfg l =
     ''https://'' @ domain @ ''/api/v1/accounts/'' @ accountId @ ''/statuses?limit=40''
     @ (if excludeReplies cfg then ''&exclude_replies=true'' else [])
     @ (if excludeReblogs cfg then ''&exclude_reblogs=true'' else [])
     @ (if truthy (nextMaxId l) then ''&max_id='' @ the (nextMaxId l) else [])
     @ (if truthy (sinceId l) then ''&since_id='' @ the (sinceId l) else [])"

text \<open>Lines 516 to 527: the cursors and the counter before the loop starts.\<close>

definition startLocals :: "fetchType \<Rightarrow> state \<Rightarrow> locals" where
  "startLocals ty s =
     \<lparr>nextMaxId = (if ty = Older \<and> length (allStatuses s) > 0
                    then Some (status_id (last (allStatuses s))) else None),
      sinceId = (if ty = Newer \<and> length (allStatuses s) > 0
                 then Some (status_id (hd (allStatuses s))) else None),
      sessionCollectedCount = 0,
      requests = [],
      waits = []\<rparr>"

text \<open>Stop condition 2: whether the date limit cuts this page, and what is left of it.\<close>

definition dateCut :: "fetchType \<Rightarrow> fetchConfig \<Rightarrow> status list \<Rightarrow> bool" where
  "dateCut ty cfg batch =
     (mode cfg = Limit_date \<and> ty \<noteq> Newer \<and> time_lt (created_at (last batch)) (limitDate cfg))"

definition filteredBatch :: "fetchType \<Rightarrow> fetchConfig \<Rightarrow> status list \<Rightarrow> status list" where
  "filteredBatch ty cfg batch =
     (if dateCut ty cfg batch
      then filter (\<lambda>x. time_ge (created_at x) (limitDate cfg)) batch
      else batch)"

text \<open>Lines 588 to 609: the page, filtered, joins the collection and is counted.\<close>

definition mergeBatch :: "fetchType \<Rightarrow> status list \<Rightarrow> state \<times> locals \<Rightarrow> state \<times> locals" where
  "mergeBatch ty fb sl =
     (case sl of (s, l) \<Rightarrow>
        if length fb > 0 then
          (s\<lparr>allStatuses := (if ty = Newer then fb @ allStatuses s else allStatuses s @ fb),
             fetchCount := sessionCollectedCount l + length fb\<rparr>,
           l\<lparr>sessionCollectedCount := sessionCollectedCount l + length fb\<rparr>)
        else (s, l))"

text \<open>Stop condition 3, evaluated after the merge.\<close>

definition countReached :: "fetchType \<Rightarrow> fetchConfig \<Rightarrow> locals \<Rightarrow> bool" where
  "countReached ty cfg l =
     (mode cfg = Limit_count \<and> ty = Initial \<and> int (sessionCollectedCount l) \<ge> limitCount cfg)"

text \<open>
  How the loop is left: by \<open>break\<close> or \<open>keepFetching = false\<close> (\<open>Exited\<close>), by an exception
  (\<open>Thrown\<close>), or not yet: the scripts end while the loop awaits a reply or polls the
  pause flag (\<open>Awaiting\<close>).
\<close>

datatype ending = Exited | Thrown error | Awaiting

text \<open>
  \<open>clicks\<close> lists the clicks that fall into the first, second, ... wait of the walk, and
  \<open>replies\<close> what the server answers to the first, second, ... request.  Past the end of
  \<open>clicks\<close> nobody clicks; past the end of \<open>replies\<close> the request stays in flight.
\<close>

function executeFetch_loop ::
  "string \<Rightarrow> string \<Rightarrow> fetchType \<Rightarrow> click list list \<Rightarrow> reply list \<Rightarrow> state \<Rightarrow> locals
     \<Rightarrow> ending \<times> state \<times> locals" where
  "executeFetch_loop domain accountId ty clicks replies s l =
     (if stopRef s then (Exited, s, l)
      else if pausedRef s then
        (case clicks of
           [] \<Rightarrow> (Awaiting, s, l)
         | c # cs \<Rightarrow>
             executeFetch_loop domain accountId ty cs replies (doClicks c s)
               (l\<lparr>waits := waits l @ [(PausePoll, 500, c)]\<rparr>))
      else
        (let l1 = l\<lparr>requests := requests l @ [statusesUrl domain accountId (fetchConfig s) l]\<rparr>
         in case replies of
              [] \<Rightarrow> (Awaiting, s, l1)
            | (took, r) # rs \<Rightarrow>
                (let c = (case clicks of [] \<Rightarrow> [] | c # cs \<Rightarrow> c);
                     cs = (case clicks of [] \<Rightarrow> [] | c # cs \<Rightarrow> cs);
                     s1 = doClicks c s;
                     l2 = l1\<lparr>waits := waits l1 @ [(PageRequest, took, c)]\<rparr>
                 in case r of
                      Rejected m \<Rightarrow> (Thrown (NetworkFailed m), s1, l2)
                    | NotOk m \<Rightarrow> (Thrown (ApiFailed m), s1, l2)
                    | Batch batch \<Rightarrow>
                        if length batch = 0 then (Exited, s1, l2)
                        else
                          (let cfg = fetchConfig s1;
                               s2 = fst (mergeBatch ty (filteredBatch ty cfg batch) (s1, l2));
                               l3 = snd (mergeBatch ty (filteredBatch ty cfg batch) (s1, l2));
                               keepFetching = (\<not> dateCut ty cfg batch \<and> \<not> countReached ty cfg l3)
                           in if keepFetching then
                                (if ty = Newer then (Exited, s2, l3)
                                 else
                                   (let c' = (case cs of [] \<Rightarrow> [] | c' # cs' \<Rightarrow> c');
                                        cs' = (case cs of [] \<Rightarrow> [] | c' # cs' \<Rightarrow> cs')
                                    in executeFetch_loop domain accountId ty cs' rs (doClicks c' s2)
                                         (l3\<lparr>nextMaxId := Some (status_id (last batch)),
                                             waits := waits l3 @ [(RateLimit, 400, c')]\<rparr>)))
                              else (Exited, s2, l3)))))"
  by pat_completeness auto
termination
  by (relation "measure (\<lambda>(domain, accountId, ty, clicks, replies, s, l). length clicks + length replies)")
     (auto split: list.splits)

declare executeFetch_loop.simps [simp del]

subsection \<open>\<open>executeFetch\<close>\<close>

text \<open>
  What \<open>executeFetch\<close> takes from outside before and after the loop:
  \<open>parseMastodonUrl(state.urlInput)\<close> (the domain and the user name, \<open>None\<close> for
  \<open>null\<close>), \<open>new URL(state.currentAccount.url).hostname\<close> (\<open>None\<close> when the constructor
  throws), the outcome of the account lookup, the clicks that fall into the awaits before
  the loop (the lookup and the request for the custom emojis), and whether
  \<open>localStorage.setItem\<close> fails for lack of room.  The custom emojis only serve the
  display and are left out of the state.
\<close>

datatype lookupResult = LookupRejected string | LookupNotOk | LookupNull | LookupOk account

record environment =
  parsedUrl :: "(string \<times> string) option"
  accountHost :: "string option"
  lookup :: lookupResult
  earlyClicks :: "click list"
  quotaExceeded :: bool

text \<open>
  Lines 473 to 509: the domain and the account id of the walk, or the exception thrown,
  with the state as it is by then.
\<close>

definition resolveAccount ::
  "fetchType \<Rightarrow> environment \<Rightarrow> state \<Rightarrow> (error + string \<times> string) \<times> state" where
  "resolveAccount ty env s =
     (if ty = Initial then
        (case parsedUrl env of
           None \<Rightarrow> (Inl InvalidUrl, s)
         | Some parsed \<Rightarrow>
             (let s1 = doClicks (earlyClicks env) s
              in case lookup env of
                   LookupRejected m \<Rightarrow> (Inl (NetworkFailed m), s1)
                 | LookupNotOk \<Rightarrow> (Inl UserNotFound, s1)
                 | LookupNull \<Rightarrow> (Inl AccountParseFailed, s1)
                 | LookupOk accountData \<Rightarrow>
                     (Inr (fst parsed, account_id accountData),
                      loadHistory (account_id accountData)
                        (s1\<lparr>currentAccount := Some accountData\<rparr>))))
      else
        (case currentAccount s of
           None \<Rightarrow> (Inl NoAccount, s)
         | Some acc \<Rightarrow>
             (case accountHost env of
                Some hostname \<Rightarrow> (Inr (hostname, account_id acc), s)
              | None \<Rightarrow>
                  (case parsedUrl env of
                     Some p \<Rightarrow> (Inr (fst p, account_id acc), s)
                   | None \<Rightarrow> (Inl NoDomain, s)))))"

text \<open>Lines 650 to 656: the collection of an \<open>initial\<close> walk is cached, room permitting.\<close>

definition cacheData :: "fetchType \<Rightarrow> environment \<Rightarrow> state \<Rightarrow> state" where
  "cacheData ty env s =
     (case currentAccount s of
        None \<Rightarrow> s
      | Some accountData \<Rightarrow>
          if ty = Initial \<and> \<not> quotaExceeded env then
            s\<lparr>localStorage := (localStorage s)
                 \<lparr>cached_data := (cached_data (localStorage s))
                                    (account_id accountData \<mapsto> allStatuses s)\<rparr>\<rparr>
          else s)"

text \<open>The \<open>catch\<close> and the \<open>finally\<close> block.\<close>

definition caught :: "error \<Rightarrow> state \<Rightarrow> state" where
  "caught e s = s\<lparr>error := Some e\<rparr>"

definition cleanup :: "state \<Rightarrow> state" where
  "cleanup s = s\<lparr>loading := False, fetchType := None, stopRef := False, isPaused := False\<rparr>"

text \<open>
  The whole of \<open>executeFetch\<close>.  When the scripts end before the loop is left, the
  result is the state of the walk at that moment, still loading.
\<close>

definition executeFetch ::
  "fetchType \<Rightarrow> environment \<Rightarrow> click list list \<Rightarrow> reply list \<Rightarrow> state
     \<Rightarrow> ending \<times> state \<times> locals" where
  "executeFetch ty env clicks replies s =
     (let s0 = s\<lparr>error := None, loading := True, fetchType := Some ty, fetchCount := 0,
                  stopRef := False, pausedRef := False, isPaused := False\<rparr>;
          s1 = (if ty = Initial
                then s0\<lparr>allStatuses := [], currentStatus := None, currentAccount := None\<rparr>
                else s0)
      in case resolveAccount ty env s1 of
           (Inl e, s2) \<Rightarrow> (Thrown e, cleanup (caught e s2), startLocals ty s2)
         | (Inr (domain, accountId), s2) \<Rightarrow>
             (case executeFetch_loop domain accountId ty clicks replies s2 (startLocals ty s2) of
                (Awaiting, s3, l) \<Rightarrow> (Awaiting, s3, l)
              | (Thrown e, s3, l) \<Rightarrow> (Thrown e, cleanup (caught e s3), l)
              | (Exited, s3, l) \<Rightarrow>
                  if ty = Initial \<and> sessionCollectedCount l = 0 \<and> \<not> stopRef s3
                  then (Thrown NoStatuses, cleanup (caught NoStatuses s3), l)
                  else (Exited, cleanup (cacheData ty env s3), l)))"

subsection \<open>Time between the click on stop and the end of the walk\<close>



subsection \<open>The loop of \<open>handleFetch\<close> in \<open>app.js\<close>\<close>

text \<open>
  The older walker has one direction, no pause and no stop, and no limit: it asks for
  pages until one comes back empty.
\<close>

record locals_app =
  collectedStatuses :: "status list"
  nextMaxId_app :: "string option"
  requests_app :: "string list"

definition statusesUrl_app :: "string \<Rightarrow> string \<Rightarrow> locals_app \<Rightarrow> string" where
  "statusesUrl_app domain accountId l =
     ''https://'' @ domain @ ''/api/v1/accounts/'' @ accountId
     @ ''/statuses?exclude_replies=true&exclude_reblogs=true'' @ ''&limit=40''
     @ (if truthy (nextMaxId_app l) then ''&max_id='' @ the (nextMaxId_app l) else [])"

fun handleFetch_loop ::
  "string \<Rightarrow> string \<Rightarrow> response list \<Rightarrow> state \<Rightarrow> locals_app \<Rightarrow> ending \<times> state \<times> locals_app" where
  "handleFetch_loop domain accountId [] s l =
     (Awaiting, s, l\<lparr>requests_app := requests_app l @ [statusesUrl_app domain accountId l]\<rparr>)"
| "handleFetch_loop domain accountId (r # rs) s l =
     (let l1 = l\<lparr>requests_app := requests_app l @ [statusesUrl_app domain accountId l]\<rparr>
      in case r of
           Rejected m \<Rightarrow> (Thrown (NetworkFailed m), s, l1)
         | NotOk m \<Rightarrow> (Thrown FetchInterrupted, s, l1)
         | Batch batch \<Rightarrow>
             if length batch = 0 then (Exited, s, l1)
             else
               (let collected = collectedStatuses l1 @ batch
                in handleFetch_loop domain accountId rs
                     (s\<lparr>allStatuses := collected, fetchCount := length collected\<rparr>)
                     (l1\<lparr>collectedStatuses := collected,
                         nextMaxId_app := Some (status_id (last batch))\<rparr>)))"

section \<open>Example sessions\<close>

text \<open>Concrete accounts, statuses and states on which the properties below are run.\<close>

definition ex_account :: account where
  "ex_account = \<lparr>account_id = ''42'', username = ''meomo'', acct = ''meomo'',
                  url = ''https://alive.bar/@meomo''\<rparr>"

definition ex_status :: "string \<Rightarrow> int \<Rightarrow> status" where
  "ex_status i t = Status i (Time t) None None (Some ex_account) ''hello''"

definition emptyStore :: store where
  "emptyStore = \<lparr>seen_statuses = Map.empty, cached_data = Map.empty\<rparr>"

text \<open>The \<open>state\<close> object as the module creates it; \<open>today\<close> is the date of that day.\<close>

definition initialState :: "jstime \<Rightarrow> store \<Rightarrow> state" where
  "initialState today st =
     \<lparr>urlInput = [], loading = False, fetchType = None, fetchCount = 0, error = None,
      currentAccount = None, allStatuses = [], currentStatus = None, viewedIds = [],
      fetchConfig = \<lparr>excludeReplies = True, excludeReblogs = True, mode = All_statuses,
                      limitCount = 100, limitDate = today\<rparr>,
      displayFilter = \<lparr>startDate = None, endDate = None, showReplies = True,
                        showReblogs = True\<rparr>,
      isPaused = False, pausedRef = False, stopRef = False, localStorage = st\<rparr>"

definition ex_loaded :: state where
  "ex_loaded = (initialState (Time 0) emptyStore)
     \<lparr>currentAccount := Some ex_account,
      allStatuses := [ex_status ''1'' 10, ex_status ''2'' 20]\<rparr>"

text \<open>The same session after both statuses have been shown, one of them on display.\<close>

definition ex_seen :: state where
  "ex_seen = ex_loaded\<lparr>viewedIds := [''1'', ''2''],
                        currentStatus := Some (ex_status ''2'' 20)\<rparr>"

text \<open>
  A backup written on another device, in which a status that is not part of the
  collection counts as viewed.
\<close>

definition ex_backup :: jsonContent where
  "ex_backup = Object (Some ''mastodon-picker-backup'') (Some ''2024-05-01T10:00:00.000Z'') None
                 (Some [ex_status ''1'' 10, ex_status ''2'' 20]) (Some ex_account) (Some [''9''])"

definition ex_restored :: state where
  "ex_restored = handleFileUpload (JsonFile (Some ex_backup)) (initialState (Time 0) emptyStore)"

text \<open>
  The world in which the profile \<open>https://alive.bar/@meomo\<close> is looked up and found,
  nobody clicks before the first page is asked for, and the store has room.
\<close>

definition ex_env :: environment where
  "ex_env = \<lparr>parsedUrl = Some (''alive.bar'', ''meomo''), accountHost = Some ''alive.bar'',
              lookup = LookupOk ex_account, earlyClicks = [], quotaExceeded = False\<rparr>"

text \<open>
  A first fetch with everything at its default: one status comes back, far fewer than
  the forty asked for.
\<close>

definition ex_fresh :: state where
  "ex_fresh = (initialState (Time 0) emptyStore)\<lparr>currentAccount := Some ex_account\<rparr>"

definition ex_short_page :: "status list" where
  "ex_short_page = [ex_status ''7'' 70]"

text \<open>A first fetch limited to three statuses, and a page of five.\<close>

definition ex_count_limited :: state where
  "ex_count_limited =
     ex_fresh\<lparr>fetchConfig := (fetchConfig ex_fresh)\<lparr>mode := Limit_count, limitCount := 3\<rparr>\<rparr>"

definition ex_page5 :: "status list" where
  "ex_page5 = [ex_status ''5'' 50, ex_status ''4'' 40, ex_status ''3'' 30,
               ex_status ''2'' 20, ex_status ''1'' 10]"

text \<open>A first fetch limited to the statuses dated 25 or later.\<close>

definition ex_date_limited :: state where
  "ex_date_limited =
     ex_fresh\<lparr>fetchConfig := (fetchConfig ex_fresh)\<lparr>mode := Limit_date, limitDate := Time 25\<rparr>\<rparr>"

text \<open>
  A full page of forty statuses, newer than those of \<open>ex_loaded\<close>: the ids run from 139
  down to 100, the newest first.
\<close>

definition ex_full_page :: "status list" where
  "ex_full_page =
     map (\<lambda>n. ex_status (''1'' @ [char_of (48 + n div 10), char_of (48 + n mod 10)])
                 (1000 + int n))
       (rev [0..<40])"

definition startLocals_app :: locals_app where
  "startLocals_app = \<lparr>collectedStatuses = [], nextMaxId_app = None, requests_app = []\<rparr>"





section \<open>Properties of the viewed set and the sampler\<close>

subsection \<open>The \<open>Set\<close> of viewed ids\<close>

lemma Set_add_length: "\<not> Set_has xs x \<Longrightarrow> length (Set_add x xs) = Suc (length xs)"
  by (simp add: Set_add_def)

lemma Set_add_set: "set (Set_add x xs) = insert x (set xs)"
  by (auto simp: Set_add_def Set_has_def)

lemma Set_add_distinct: "distinct xs \<Longrightarrow> distinct (Set_add x xs)"
  by (simp add: Set_add_def Set_has_def)

lemma fold_Set_add_distinct: "distinct acc \<Longrightarrow> distinct (fold Set_add xs acc)"
  by (induction xs arbitrary: acc) (simp_all add: Set_add_distinct)

lemma fold_Set_add_id: "distinct (acc @ xs) \<Longrightarrow> fold Set_add xs acc = acc @ xs"
  by (induction xs arbitrary: acc) (auto simp: Set_add_def Set_has_def)

lemma fold_Set_add_set: "set (fold Set_add xs acc) = set acc \<union> set xs"
  by (induction xs arbitrary: acc) (auto simp: Set_add_set)

lemma new_Set_distinct: "distinct (new_Set xs)"
  by (simp add: new_Set_def fold_Set_add_distinct)

lemma new_Set_id: "distinct xs \<Longrightarrow> new_Set xs = xs"
  using fold_Set_add_id [of "[]" xs] by (simp add: new_Set_def)

lemma new_Set_set: "set (new_Set xs) = set xs"
  by (simp add: new_Set_def fold_Set_add_set)

lemma viewedIds_saveHistory [simp]: "viewedIds (saveHistory k ids s) = viewedIds s"
  by (simp add: saveHistory_def)

subsection \<open>One pick\<close>

lemma filter_nth_holds: "n < length (filter P xs) \<Longrightarrow> P (filter P xs ! n)"
  using nth_mem [of n "filter P xs"] by simp

lemma available_nth_fresh:
  assumes "0 \<le> i" and "i < int (length (availableStatuses s))"
  shows "status_id (availableStatuses s ! nat i) \<notin> set (viewedIds s)"
proof -
  from assms have "nat i < length (availableStatuses s)" by simp
  then show ?thesis
    unfolding availableStatuses_def Set_has_def by (rule filter_nth_holds)
qed

lemma pick_viewedIds:
  "viewedIds (snd (pickRandomStatus u yes s)) =
     (case fst (pickRandomStatus u yes s) of
        Picked p \<Rightarrow> viewedIds s @ [status_id p]
      | Exhausted \<Rightarrow> (if yes then [] else viewedIds s)
      | _ \<Rightarrow> viewedIds s)"
  by (auto simp: pickRandomStatus_def Let_def clearHistory_def Set_add_def Set_has_def
           split: option.splits dest: available_nth_fresh)

lemma pick_fresh:
  "fst (pickRandomStatus u yes s) = Picked p \<Longrightarrow> status_id p \<notin> set (viewedIds s)"
  by (auto simp: pickRandomStatus_def Let_def
           split: option.splits if_splits dest: available_nth_fresh)

text \<open>
  With the display filter wide open the sampler of \<open>app.js\<close> and the later one agree, so
  what is proved of \<open>pickRandomStatus\<close> below holds of both.
\<close>

lemma pick_app_eq:
  "showReplies (displayFilter s) \<Longrightarrow> showReblogs (displayFilter s) \<Longrightarrow>
   startDate (displayFilter s) = None \<Longrightarrow> endDate (displayFilter s) = None \<Longrightarrow>
   pickRandomStatus_app u yes s = pickRandomStatus u yes s"
  by (auto simp: pickRandomStatus_def pickRandomStatus_app_def displayPool_def Let_def
        availableStatuses_def split: option.splits)

text \<open>
  Claim C10.  A call of \<open>pickRandomStatus\<close> with no current account, or with an empty
  collection, returns at its first line: nothing is shown, and the whole state, with the
  viewed set, the status on display and \<open>localStorage\<close>, is what it was.  The same holds
  for the older \<open>pickRandomStatus\<close> of \<open>app.js\<close>.
\<close>

theorem pick_noop_without_account_or_collection:
  assumes "currentAccount s = None \<or> allStatuses s = []"
  shows "pickRandomStatus u yes s = (NoOp, s) \<and> pickRandomStatus_app u yes s = (NoOp, s)"
proof (cases "currentAccount s")
  case None
  then show ?thesis by (simp add: pickRandomStatus_def pickRandomStatus_app_def)
next
  case (Some a)
  with assms have "allStatuses s = []" by simp
  with Some show ?thesis by (simp add: pickRandomStatus_def pickRandomStatus_app_def)
qed

text \<open>The freshly created state has no account: a pick there does nothing.\<close>

theorem pick_noop_witness:
  "(currentAccount (initialState (Time 0) emptyStore) = None
      \<or> allStatuses (initialState (Time 0) emptyStore) = [])
   \<and> pickRandomStatus 0 True (initialState (Time 0) emptyStore)
       = (NoOp, initialState (Time 0) emptyStore)
   \<and> pickRandomStatus_app 0 True (initialState (Time 0) emptyStore)
       = (NoOp, initialState (Time 0) emptyStore)"
proof -
  have h: "currentAccount (initialState (Time 0) emptyStore) = None
      \<or> allStatuses (initialState (Time 0) emptyStore) = []"
    by (simp add: initialState_def)
  from h pick_noop_without_account_or_collection [OF h, of 0 True] show ?thesis by simp
qed

text \<open>
  Claim C8, amended.  On a loaded collection the sampler shows the \<open>EmptyPool\<close> alert
  exactly when the display-filtered pool is empty, and the \<open>Exhausted\<close> dialog exactly when
  that pool is not empty and every status in it has its id in the viewed set.  \<open>EmptyPool\<close>
  changes nothing.  \<open>Exhausted\<close> changes nothing when the user declines the reset the
  dialog offers; when the user accepts, \<open>clearHistory\<close> runs inside the same call: the
  viewed set becomes empty, the empty set is written to \<open>localStorage\<close>, and the status
  on display is cleared.
\<close>

theorem sampler_signals:
  assumes "currentAccount s = Some a" and "allStatuses s \<noteq> []"
  shows "(fst (pickRandomStatus u yes s) = EmptyPool \<longleftrightarrow> displayPool s = [])
       \<and> (fst (pickRandomStatus u yes s) = Exhausted \<longleftrightarrow>
            displayPool s \<noteq> [] \<and> (\<forall>p \<in> set (displayPool s). Set_has (viewedIds s) (status_id p)))
       \<and> (fst (pickRandomStatus u yes s) = EmptyPool \<longrightarrow> snd (pickRandomStatus u yes s) = s)
       \<and> (fst (pickRandomStatus u yes s) = Exhausted \<and> \<not> yes \<longrightarrow>
            snd (pickRandomStatus u yes s) = s)
       \<and> (fst (pickRandomStatus u yes s) = Exhausted \<and> yes \<longrightarrow>
            snd (pickRandomStatus u yes s) = clearHistory s
            \<and> viewedIds (snd (pickRandomStatus u yes s)) = []
            \<and> currentStatus (snd (pickRandomStatus u yes s)) = None
            \<and> seen_statuses (localStorage (snd (pickRandomStatus u yes s))) (account_id a) = Some [])"
proof -
  have av: "availableStatuses s = [] \<longleftrightarrow>
            (\<forall>p \<in> set (displayPool s). Set_has (viewedIds s) (status_id p))"
    by (simp add: availableStatuses_def filter_empty_conv)
  have ch: "viewedIds (clearHistory s) = [] \<and> currentStatus (clearHistory s) = None
          \<and> seen_statuses (localStorage (clearHistory s)) (account_id a) = Some []"
    using assms(1) by (simp add: clearHistory_def saveHistory_def)
  show ?thesis
    using assms av ch
    by (auto simp: pickRandomStatus_def Let_def)
qed

text \<open>Everything seen, reset declined: \<open>Exhausted\<close>, and the state is untouched.\<close>

theorem sampler_signals_witness:
  "currentAccount ex_seen = Some ex_account \<and> allStatuses ex_seen \<noteq> []
   \<and> fst (pickRandomStatus 0 False ex_seen) = Exhausted
   \<and> snd (pickRandomStatus 0 False ex_seen) = ex_seen
   \<and> displayPool ex_seen \<noteq> []"
proof -
  have a: "currentAccount ex_seen = Some ex_account"
    and b: "allStatuses ex_seen \<noteq> []"
    by (simp_all add: ex_seen_def ex_loaded_def)
  have e: "fst (pickRandomStatus 0 False ex_seen) = Exhausted"
    by code_simp
  from sampler_signals [OF a b, of 0 False] a b e show ?thesis by simp
qed

text \<open>
  Claim C8 as stated fails: with everything seen and the reset accepted, the call that
  signals \<open>Exhausted\<close> empties the viewed set.
\<close>

theorem exhausted_reset_counterexample:
  "currentAccount ex_seen \<noteq> None \<and> allStatuses ex_seen \<noteq> []
   \<and> fst (pickRandomStatus 0 True ex_seen) = Exhausted
   \<and> viewedIds (snd (pickRandomStatus 0 True ex_seen)) \<noteq> viewedIds ex_seen"
  by code_simp

subsection \<open>Runs of picks\<close>

lemma run_viewedIds:
  "\<not> resetIn es s \<Longrightarrow> viewedIds (run es s) = viewedIds s @ map status_id (picked es s)"
proof (induction es arbitrary: s)
  case Nil
  show ?case by simp
next
  case (Cons e es)
  show ?case
  proof (cases e)
    case (PickEv u yes)
    let ?s' = "snd (pickRandomStatus u yes s)"
    from Cons.prems PickEv have nr: "\<not> resetIn es ?s'"
      and ne: "\<not> (fst (pickRandomStatus u yes s) = Exhausted \<and> yes)" by auto
    have "viewedIds (run es ?s') = viewedIds ?s' @ map status_id (picked es ?s')"
      by (rule Cons.IH [OF nr])
    with ne PickEv show ?thesis
      by (cases "fst (pickRandomStatus u yes s)") (auto simp: pick_viewedIds)
  next
    case (EnvEv sts f)
    with Cons show ?thesis by simp
  qed
qed

lemma run_picked_fresh:
  "\<not> resetIn es s \<Longrightarrow> distinct (map status_id (picked es s)) \<and>
     status_id ` set (picked es s) \<inter> set (viewedIds s) = {}"
proof (induction es arbitrary: s)
  case Nil
  show ?case by simp
next
  case (Cons e es)
  show ?case
  proof (cases e)
    case (PickEv u yes)
    let ?s' = "snd (pickRandomStatus u yes s)"
    from Cons.prems PickEv have nr: "\<not> resetIn es ?s'"
      and ne: "\<not> (fst (pickRandomStatus u yes s) = Exhausted \<and> yes)" by auto
    note IH = Cons.IH [OF nr]
    show ?thesis
    proof (cases "fst (pickRandomStatus u yes s)")
      case (Picked p)
      then have v: "viewedIds ?s' = viewedIds s @ [status_id p]" by (simp add: pick_viewedIds)
      from Picked have "status_id p \<notin> set (viewedIds s)" by (rule pick_fresh)
      with IH v Picked PickEv show ?thesis by auto
    next
      case Exhausted
      with ne have "viewedIds ?s' = viewedIds s" by (simp add: pick_viewedIds)
      with IH Exhausted PickEv show ?thesis by simp
    qed (use IH PickEv in \<open>simp_all add: pick_viewedIds\<close>)
  next
    case (EnvEv sts f)
    from Cons.prems EnvEv
    have "\<not> resetIn es (s\<lparr>allStatuses := sts, displayFilter := f\<rparr>)" by simp
    from Cons.IH [OF this] EnvEv show ?thesis by simp
  qed
qed

lemma run_append: "run (es @ es') s = run es' (run es s)"
  by (induction es s rule: run.induct) simp_all

text \<open>
  Claim C1, amended.  Take any run of picks, fetches and filter changes in which no pick
  ends in an accepted reset, and let \<open>k\<close> be the number of its successful picks.  Then the
  viewed set has grown by exactly \<open>k\<close> ids (it holds exactly \<open>k\<close> when it was empty at the
  start), the \<open>k\<close> statuses picked have \<open>k\<close> different ids, all of them in the viewed set,
  and no continuation of the run without a reset picks a status with one of those ids.
  By \<open>pick_app_eq\<close> a run in which the display filter stays wide open is as well a run
  of the sampler of \<open>app.js\<close>.
\<close>

theorem pick_sequence_no_repeat:
  assumes "\<not> resetIn es s"
  shows "length (viewedIds (run es s)) = length (viewedIds s) + length (picked es s)
       \<and> card (set (viewedIds (run es s))) = card (set (viewedIds s)) + length (picked es s)
       \<and> distinct (map status_id (picked es s))
       \<and> status_id ` set (picked es s) \<subseteq> set (viewedIds (run es s))
       \<and> (\<forall>es'. \<not> resetIn es' (run es s) \<longrightarrow>
            status_id ` set (picked es' (run es s)) \<inter> status_id ` set (picked es s) = {})"
proof -
  let ?ids = "map status_id (picked es s)"
  have v: "viewedIds (run es s) = viewedIds s @ ?ids"
    by (rule run_viewedIds [OF assms])
  have d: "distinct ?ids" and f: "set ?ids \<inter> set (viewedIds s) = {}"
    using run_picked_fresh [OF assms] by simp_all
  have "card (set (viewedIds s) \<union> set ?ids) = card (set (viewedIds s)) + card (set ?ids)"
    by (rule card_Un_disjoint) (use f in auto)
  moreover have "card (set ?ids) = length (picked es s)"
    using distinct_card [OF d] by simp
  ultimately have c: "card (set (viewedIds (run es s))) = card (set (viewedIds s)) + length (picked es s)"
    by (simp add: v)
  have later: "status_id ` set (picked es' (run es s)) \<inter> status_id ` set (picked es s) = {}"
    if "\<not> resetIn es' (run es s)" for es'
    using run_picked_fresh [OF that] v by auto
  from v c d later show ?thesis by auto
qed

text \<open>Two successful picks from a fresh viewed set: exactly two ids viewed.\<close>

theorem pick_sequence_witness:
  "\<not> resetIn [PickEv 0 False, PickEv (1/2) False] ex_loaded
   \<and> length (picked [PickEv 0 False, PickEv (1/2) False] ex_loaded) = 2
   \<and> viewedIds ex_loaded = []
   \<and> card (set (viewedIds (run [PickEv 0 False, PickEv (1/2) False] ex_loaded))) = 2"
proof -
  have n: "\<not> resetIn [PickEv 0 False, PickEv (1/2) False] ex_loaded"
    by code_simp
  have k: "length (picked [PickEv 0 False, PickEv (1/2) False] ex_loaded) = 2"
    by code_simp
  have v: "viewedIds ex_loaded = []"
    by (simp add: ex_loaded_def initialState_def)
  from pick_sequence_no_repeat [OF n] n k v show ?thesis by simp
qed

text \<open>
  Claim C1 as stated fails where the viewed set is not empty to begin with.  A fresh
  program imports a backup whose viewed ids are \<open>[9]\<close>; after one successful pick, the
  only one ever made, the viewed set holds two ids.
\<close>

theorem pick_sequence_counterexample:
  "viewedIds (initialState (Time 0) emptyStore) = []
   \<and> \<not> resetIn [PickEv 0 False] ex_restored
   \<and> length (picked [PickEv 0 False] ex_restored) = 1
   \<and> viewedIds (run [PickEv 0 False] ex_restored) = [''9'', ''1'']
   \<and> card (set (viewedIds (run [PickEv 0 False] ex_restored))) = 2"
  by code_simp

section \<open>Properties of export and import\<close>

text \<open>
  Claim C6.  From a state with a current account and a non-empty collection,
  \<open>handleDownloadBackup\<close> writes a backup document, and importing that document, into
  any state whatever, restores the same account, the same collection and the same viewed
  set, with no error.  The viewed set is the same set of ids in every case, and the same
  sequence whenever the exported one is a \<open>Set\<close> (a list without repetition).
\<close>

theorem backup_roundtrip:
  assumes "currentAccount s = Some a" and "allStatuses s \<noteq> []"
  shows "\<exists>doc name. handleDownloadBackup now s = Some (doc, name)
           \<and> currentAccount (handleFileUpload (JsonFile (Some doc)) t) = Some a
           \<and> allStatuses (handleFileUpload (JsonFile (Some doc)) t) = allStatuses s
           \<and> set (viewedIds (handleFileUpload (JsonFile (Some doc)) t)) = set (viewedIds s)
           \<and> (distinct (viewedIds s) \<longrightarrow>
                 viewedIds (handleFileUpload (JsonFile (Some doc)) t) = viewedIds s)
           \<and> error (handleFileUpload (JsonFile (Some doc)) t) = None"
proof -
  let ?doc = "Object (Some ''mastodon-picker-backup'') (Some now) None
                (Some (allStatuses s)) (Some a) (Some (viewedIds s))"
  have ex: "handleDownloadBackup now s = Some (?doc, backupFileName (username a) now)"
    using assms by (simp add: handleDownloadBackup_def)
  have df: "detectFormat ?doc = Inr (allStatuses s, Some a, Some (new_Set (viewedIds s)))"
    by (simp add: detectFormat_def)
  let ?t' = "handleFileUpload (JsonFile (Some ?doc)) t"
  have acc: "currentAccount ?t' = Some a"
    and sts: "allStatuses ?t' = allStatuses s"
    and err: "error ?t' = None"
    and vw: "viewedIds ?t' = new_Set (viewedIds s)"
    by (simp_all add: handleFileUpload_def df installAccount_def saveHistory_def Let_def)
  have "set (new_Set (viewedIds s)) = set (viewedIds s)"
    by (rule new_Set_set)
  with ex acc sts err vw new_Set_id [of "viewedIds s"] show ?thesis by simp
qed

text \<open>The session with both statuses viewed, exported and imported into a fresh state.\<close>

theorem backup_roundtrip_witness:
  "currentAccount ex_seen = Some ex_account \<and> allStatuses ex_seen \<noteq> []
   \<and> distinct (viewedIds ex_seen)
   \<and> (\<exists>doc name. handleDownloadBackup ''2024-05-01T10:00:00.000Z'' ex_seen = Some (doc, name)
        \<and> currentAccount (handleFileUpload (JsonFile (Some doc)) (initialState NaN emptyStore))
            = Some ex_account
        \<and> viewedIds (handleFileUpload (JsonFile (Some doc)) (initialState NaN emptyStore))
            = [''1'', ''2''])"
proof -
  have a: "currentAccount ex_seen = Some ex_account"
    and b: "allStatuses ex_seen \<noteq> []"
    and v: "viewedIds ex_seen = [''1'', ''2'']"
    by (simp_all add: ex_seen_def ex_loaded_def)
  from backup_roundtrip [OF a b, of "''2024-05-01T10:00:00.000Z''" "initialState NaN emptyStore"]
  show ?thesis using a b v by auto
qed

text \<open>
  Claim C7, amended.  Importing a JSON document of unrecognized shape aborts with an
  error (the message of the unknown format, or the \<open>TypeError\<close> of reading a property of
  \<open>null\<close>).  The viewed set and \<open>localStorage\<close> are what they were, and so is every
  field of the state but five: the import had already cleared the current account, the
  collection and the status on display when it began, and it ends with the error set and
  \<open>loading\<close> off.
\<close>

theorem import_unrecognized:
  assumes "unrecognized j"
  shows "\<exists>e. (e = UnknownFormat \<or> e = TypeError)
           \<and> handleFileUpload (JsonFile (Some j)) s
               = s\<lparr>loading := False, error := Some e, currentStatus := None,
                    currentAccount := None, allStatuses := []\<rparr>
           \<and> viewedIds (handleFileUpload (JsonFile (Some j)) s) = viewedIds s
           \<and> localStorage (handleFileUpload (JsonFile (Some j)) s) = localStorage s"
proof -
  let ?cleared = "\<lambda>e. s\<lparr>loading := False, error := Some e, currentStatus := None,
                        currentAccount := None, allStatuses := []\<rparr>"
  have "detectFormat j = Inl UnknownFormat \<or> detectFormat j = Inl TypeError"
    using assms by (cases j) (auto simp: unrecognized_def detectFormat_def)
  then obtain e where e: "e = UnknownFormat \<or> e = TypeError" and d: "detectFormat j = Inl e"
    by auto
  from d have "handleFileUpload (JsonFile (Some j)) s = ?cleared e"
    by (simp add: handleFileUpload_def)
  with e show ?thesis by auto
qed

text \<open>
  The session of \<open>ex_restored\<close> has just been restored from a backup in which one id
  counts as viewed.  An object whose \<open>type\<close> is neither marker is imported over it: the
  import ends in an error, and the viewed set and the store are what they were.
\<close>

theorem import_unrecognized_witness:
  "unrecognized (Object (Some ''note'') None None None None None)
   \<and> viewedIds ex_restored = [''9'']
   \<and> viewedIds (handleFileUpload (JsonFile (Some (Object (Some ''note'') None None None None None)))
                  ex_restored) = [''9'']
   \<and> localStorage (handleFileUpload (JsonFile (Some (Object (Some ''note'') None None None None None)))
                  ex_restored) = localStorage ex_restored
   \<and> error (handleFileUpload (JsonFile (Some (Object (Some ''note'') None None None None None)))
                  ex_restored) \<noteq> None"
proof -
  have u: "unrecognized (Object (Some ''note'') None None None None None)"
    by (simp add: unrecognized_def)
  have v: "viewedIds ex_restored = [''9'']"
    by code_simp
  from import_unrecognized [OF u, of ex_restored] u v show ?thesis
    by auto
qed

text \<open>
  Claim C7 as stated fails.  The session of \<open>ex_restored\<close> is the one a first import has
  set up, with an account and two statuses and nothing on display; this is the state
  while that import still waits for the custom emojis, with the file input of the empty
  page still in the document.  A second file is chosen, whose content is a number: the
  import fails, and the account and the collection are gone.
\<close>

theorem import_unrecognized_counterexample:
  "unrecognized Primitive
   \<and> currentAccount ex_restored = Some ex_account
   \<and> allStatuses ex_restored = [ex_status ''1'' 10, ex_status ''2'' 20]
   \<and> currentStatus ex_restored = None \<and> \<not> loading ex_restored \<and> error ex_restored = None
   \<and> error (handleFileUpload (JsonFile (Some Primitive)) ex_restored) = Some UnknownFormat
   \<and> currentAccount (handleFileUpload (JsonFile (Some Primitive)) ex_restored) = None
   \<and> allStatuses (handleFileUpload (JsonFile (Some Primitive)) ex_restored) = []"
  by code_simp

subsection \<open>The viewed set stays a \<open>Set\<close>\<close>

text \<open>
  Every operation that writes \<open>viewedIds\<close> leaves a list without repetition, so the
  states the program reaches from its initial state all have a viewed set that is a
  \<open>Set\<close>.
\<close>

lemma loadHistory_distinct: "distinct (viewedIds (loadHistory k s))"
  by (simp add: loadHistory_def new_Set_distinct split: option.splits)

lemma clearHistory_distinct: "distinct (viewedIds s) \<Longrightarrow> distinct (viewedIds (clearHistory s))"
  by (simp add: clearHistory_def split: option.splits)

lemma pick_distinct:
  "distinct (viewedIds s) \<Longrightarrow> distinct (viewedIds (snd (pickRandomStatus u yes s)))"
  by (auto simp: pickRandomStatus_def Let_def clearHistory_distinct Set_add_distinct
           split: option.splits)

lemma handleFileUpload_distinct:
  assumes d: "distinct (viewedIds s)"
  shows "distinct (viewedIds (handleFileUpload up s))"
proof (cases up)
  case NoFile
  with d show ?thesis by (simp add: handleFileUpload_def)
next
  case (Folder r)
  with d show ?thesis
    by (cases r) (auto simp: handleFileUpload_def Let_def loadHistory_distinct)
next
  case (JsonFile parsed)
  show ?thesis
  proof (cases parsed)
    case None
    with JsonFile d show ?thesis by (simp add: handleFileUpload_def)
  next
    case (Some j)
    have ids: "distinct ids" if "detectFormat j = Inr (sts, a, Some ids)" for sts a ids
      using that
      by (cases j) (auto simp: detectFormat_def new_Set_distinct split: list.splits if_splits sum.splits)
    show ?thesis
    proof (cases "detectFormat j")
      case (Inl e)
      with JsonFile Some d show ?thesis by (simp add: handleFileUpload_def)
    next
      case (Inr res)
      obtain sts a restoredIds where res: "res = (sts, a, restoredIds)" by (cases res)
      show ?thesis
      proof (cases a)
        case None
        with JsonFile Some Inr res d show ?thesis by (simp add: handleFileUpload_def)
      next
        case (Some acc)
        show ?thesis
        proof (cases restoredIds)
          case None
          with JsonFile \<open>parsed = Some j\<close> Inr res Some show ?thesis
            by (simp add: handleFileUpload_def Let_def loadHistory_distinct)
        next
          case (Some ids)
          with Inr res have "distinct ids" using ids by simp
          with JsonFile \<open>parsed = Some j\<close> Inr res \<open>a = Some acc\<close> Some show ?thesis
            by (simp add: handleFileUpload_def Let_def)
        qed
      qed
    qed
  qed
qed

section \<open>Properties of the walker\<close>

subsection \<open>Clicks\<close>

lemma doClicks_Nil [simp]: "doClicks [] s = s"
  by (simp add: doClicks_def)

lemma doClicks_Cons: "doClicks (x # c) s = doClicks c (doClick x s)"
  by (simp add: doClicks_def)

lemma doClick_frame:
  "fetchConfig (doClick x s) = fetchConfig s \<and> allStatuses (doClick x s) = allStatuses s
   \<and> fetchCount (doClick x s) = fetchCount s \<and> viewedIds (doClick x s) = viewedIds s
   \<and> currentAccount (doClick x s) = currentAccount s
   \<and> localStorage (doClick x s) = localStorage s"
proof (cases x)
  case (Pair t b)
  then show ?thesis by (cases b) (simp_all add: togglePause_def stopFetch_def Let_def)
qed

lemma doClicks_frame:
  "fetchConfig (doClicks c s) = fetchConfig s \<and> allStatuses (doClicks c s) = allStatuses s
   \<and> fetchCount (doClicks c s) = fetchCount s \<and> viewedIds (doClicks c s) = viewedIds s
   \<and> currentAccount (doClicks c s) = currentAccount s
   \<and> localStorage (doClicks c s) = localStorage s"
  by (induction c arbitrary: s) (simp_all add: doClicks_Cons doClick_frame)





subsection \<open>One turn of the loop\<close>

lemma loop_stopped:
  "stopRef s \<Longrightarrow> executeFetch_loop d a ty clicks replies s l = (Exited, s, l)"
  by (subst executeFetch_loop.simps) simp

lemma loop_paused:
  "\<not> stopRef s \<Longrightarrow> pausedRef s \<Longrightarrow>
   executeFetch_loop d a ty (c # cs) replies s l =
     executeFetch_loop d a ty cs replies (doClicks c s) (l\<lparr>waits := waits l @ [(PausePoll, 500, c)]\<rparr>)"
  by (subst executeFetch_loop.simps) simp

lemma loop_paused_Nil:
  "\<not> stopRef s \<Longrightarrow> pausedRef s \<Longrightarrow> executeFetch_loop d a ty [] replies s l = (Awaiting, s, l)"
  by (subst executeFetch_loop.simps) simp

lemma loop_in_flight:
  "\<not> stopRef s \<Longrightarrow> \<not> pausedRef s \<Longrightarrow>
   executeFetch_loop d a ty clicks [] s l =
     (Awaiting, s, l\<lparr>requests := requests l @ [statusesUrl d a (fetchConfig s) l]\<rparr>)"
  by (subst executeFetch_loop.simps) simp

lemma loop_rejected:
  "\<not> stopRef s \<Longrightarrow> \<not> pausedRef s \<Longrightarrow>
   executeFetch_loop d a ty clicks ((took, Rejected m) # rs) s l =
     (Thrown (NetworkFailed m), doClicks (case clicks of [] \<Rightarrow> [] | c # cs \<Rightarrow> c) s,
      l\<lparr>requests := requests l @ [statusesUrl d a (fetchConfig s) l],
        waits := waits l @ [(PageRequest, took, case clicks of [] \<Rightarrow> [] | c # cs \<Rightarrow> c)]\<rparr>)"
  by (subst executeFetch_loop.simps) (simp add: Let_def)

lemma loop_not_ok:
  "\<not> stopRef s \<Longrightarrow> \<not> pausedRef s \<Longrightarrow>
   executeFetch_loop d a ty clicks ((took, NotOk m) # rs) s l =
     (Thrown (ApiFailed m), doClicks (case clicks of [] \<Rightarrow> [] | c # cs \<Rightarrow> c) s,
      l\<lparr>requests := requests l @ [statusesUrl d a (fetchConfig s) l],
        waits := waits l @ [(PageRequest, took, case clicks of [] \<Rightarrow> [] | c # cs \<Rightarrow> c)]\<rparr>)"
  by (subst executeFetch_loop.simps) (simp add: Let_def)

lemma loop_empty_page:
  "\<not> stopRef s \<Longrightarrow> \<not> pausedRef s \<Longrightarrow>
   executeFetch_loop d a ty clicks ((took, Batch []) # rs) s l =
     (Exited, doClicks (case clicks of [] \<Rightarrow> [] | c # cs \<Rightarrow> c) s,
      l\<lparr>requests := requests l @ [statusesUrl d a (fetchConfig s) l],
        waits := waits l @ [(PageRequest, took, case clicks of [] \<Rightarrow> [] | c # cs \<Rightarrow> c)]\<rparr>)"
  by (subst executeFetch_loop.simps) (simp add: Let_def)

lemma loop_page:
  fixes clicks :: "click list list" and s :: state and l :: locals
    and d a :: string and took :: nat and ty :: fetchType and batch :: "status list"
  assumes "\<not> stopRef s" and "\<not> pausedRef s" and "batch \<noteq> []"
  defines "c \<equiv> (case clicks of [] \<Rightarrow> [] | c # cs \<Rightarrow> c)"
  defines "c' \<equiv> (case tl clicks of [] \<Rightarrow> [] | c' # cs' \<Rightarrow> c')"
  defines "l2 \<equiv> l\<lparr>requests := requests l @ [statusesUrl d a (fetchConfig s) l],
                  waits := waits l @ [(PageRequest, took, c)]\<rparr>"
  defines "m \<equiv> mergeBatch ty (filteredBatch ty (fetchConfig s) batch) (doClicks c s, l2)"
  shows "executeFetch_loop d a ty clicks ((took, Batch batch) # rs) s l =
     (if \<not> dateCut ty (fetchConfig s) batch \<and> \<not> countReached ty (fetchConfig s) (snd m)
         \<and> ty \<noteq> Newer
      then executeFetch_loop d a ty (tl (tl clicks)) rs (doClicks c' (fst m))
             ((snd m)\<lparr>nextMaxId := Some (status_id (last batch)),
                      waits := waits (snd m) @ [(RateLimit, 400, c')]\<rparr>)
      else (Exited, fst m, snd m))"
  unfolding c_def c'_def l2_def m_def using assms(1-3)
  by (subst executeFetch_loop.simps)
     (cases clicks; simp add: Let_def doClicks_frame split: list.splits)

subsection \<open>Merging a page\<close>

lemma mergeBatch_frame:
  "requests (snd (mergeBatch ty fb (s, l))) = requests l
   \<and> waits (snd (mergeBatch ty fb (s, l))) = waits l
   \<and> nextMaxId (snd (mergeBatch ty fb (s, l))) = nextMaxId l
   \<and> sinceId (snd (mergeBatch ty fb (s, l))) = sinceId l
   \<and> stopRef (fst (mergeBatch ty fb (s, l))) = stopRef s
   \<and> pausedRef (fst (mergeBatch ty fb (s, l))) = pausedRef s
   \<and> fetchConfig (fst (mergeBatch ty fb (s, l))) = fetchConfig s"
  by (simp add: mergeBatch_def)

lemma mergeBatch_older:
  "ty \<noteq> Newer \<Longrightarrow>
   allStatuses (fst (mergeBatch ty fb (s, l))) = allStatuses s @ fb
   \<and> requests (snd (mergeBatch ty fb (s, l))) = requests l
   \<and> waits (snd (mergeBatch ty fb (s, l))) = waits l
   \<and> sessionCollectedCount (snd (mergeBatch ty fb (s, l))) = sessionCollectedCount l + length fb
   \<and> stopRef (fst (mergeBatch ty fb (s, l))) = stopRef s
   \<and> pausedRef (fst (mergeBatch ty fb (s, l))) = pausedRef s
   \<and> fetchConfig (fst (mergeBatch ty fb (s, l))) = fetchConfig s"
  by (simp add: mergeBatch_def)

lemma mergeBatch_newer:
  "allStatuses (fst (mergeBatch Newer fb (s, l))) = fb @ allStatuses s
   \<and> requests (snd (mergeBatch Newer fb (s, l))) = requests l
   \<and> waits (snd (mergeBatch Newer fb (s, l))) = waits l"
  by (simp add: mergeBatch_def)

subsection \<open>The requests of a walk\<close>

text \<open>The loop only ever adds to the list of requests.\<close>

lemma loop_requests_grow:
  "\<exists>ys. requests (snd (snd (executeFetch_loop d a ty clicks replies s l))) = requests l @ ys"
proof (induction "length clicks + length replies" arbitrary: clicks replies s l rule: less_induct)
  case less
  show ?case
  proof (cases "stopRef s")
    case True
    then show ?thesis by (simp add: loop_stopped)
  next
    case ns: False
    show ?thesis
    proof (cases "pausedRef s")
      case True
      show ?thesis
      proof (cases clicks)
        case Nil
        with ns True show ?thesis by (simp add: loop_paused_Nil)
      next
        case (Cons c cs)
        have "\<exists>ys. requests (snd (snd (executeFetch_loop d a ty cs replies (doClicks c s)
                  (l\<lparr>waits := waits l @ [(PausePoll, 500, c)]\<rparr>)))) =
                requests (l\<lparr>waits := waits l @ [(PausePoll, 500, c)]\<rparr>) @ ys"
          by (rule less) (simp add: Cons)
        then show ?thesis using ns True Cons by (simp add: loop_paused)
      qed
    next
      case np: False
      show ?thesis
      proof (cases replies)
        case Nil
        with ns np show ?thesis by (simp add: loop_in_flight)
      next
        case (Cons reply rs)
        obtain took r where reply: "reply = (took, r)" by (cases reply)
        show ?thesis
        proof (cases r)
          case (Rejected m)
          with ns np Cons reply show ?thesis by (simp add: loop_rejected)
        next
          case (NotOk m)
          with ns np Cons reply show ?thesis by (simp add: loop_not_ok)
        next
          case (Batch batch)
          show ?thesis
          proof (cases "batch = []")
            case True
            with ns np Cons reply Batch show ?thesis by (simp add: loop_empty_page)
          next
            case ne: False
            let ?c = "case clicks of [] \<Rightarrow> [] | c # cs \<Rightarrow> c"
            let ?c' = "case tl clicks of [] \<Rightarrow> [] | c' # cs' \<Rightarrow> c'"
            let ?l2 = "l\<lparr>requests := requests l @ [statusesUrl d a (fetchConfig s) l],
                         waits := waits l @ [(PageRequest, took, ?c)]\<rparr>"
            let ?m = "mergeBatch ty (filteredBatch ty (fetchConfig s) batch) (doClicks ?c s, ?l2)"
            let ?l4 = "(snd ?m)\<lparr>nextMaxId := Some (status_id (last batch)),
                                waits := waits (snd ?m) @ [(RateLimit, 400, ?c')]\<rparr>"
            have r4: "requests ?l4 = requests l @ [statusesUrl d a (fetchConfig s) l]"
              by (simp add: mergeBatch_frame)
            have "\<exists>ys. requests (snd (snd (executeFetch_loop d a ty (tl (tl clicks)) rs
                        (doClicks ?c' (fst ?m)) ?l4))) = requests ?l4 @ ys"
              by (rule less) (simp add: Cons)
            then show ?thesis
              using Cons reply Batch r4
              by (auto simp: loop_page [OF ns np ne] mergeBatch_frame)
          qed
        qed
      qed
    qed
  qed
qed

text \<open>A loop that is neither stopped nor paused sends a request first.\<close>

lemma loop_requests_first:
  assumes ns: "\<not> stopRef s" and np: "\<not> pausedRef s"
  shows "\<exists>ys. requests (snd (snd (executeFetch_loop d a ty clicks replies s l)))
               = requests l @ [statusesUrl d a (fetchConfig s) l] @ ys"
proof (cases replies)
  case Nil
  with ns np show ?thesis by (simp add: loop_in_flight)
next
  case (Cons reply rs)
  obtain took r where reply: "reply = (took, r)" by (cases reply)
  show ?thesis
  proof (cases r)
    case (Rejected m)
    with ns np Cons reply show ?thesis by (simp add: loop_rejected)
  next
    case (NotOk m)
    with ns np Cons reply show ?thesis by (simp add: loop_not_ok)
  next
    case (Batch batch)
    show ?thesis
    proof (cases "batch = []")
      case True
      with ns np Cons reply Batch show ?thesis by (simp add: loop_empty_page)
    next
      case ne: False
      let ?c = "case clicks of [] \<Rightarrow> [] | c # cs \<Rightarrow> c"
      let ?c' = "case tl clicks of [] \<Rightarrow> [] | c' # cs' \<Rightarrow> c'"
      let ?l2 = "l\<lparr>requests := requests l @ [statusesUrl d a (fetchConfig s) l],
                   waits := waits l @ [(PageRequest, took, ?c)]\<rparr>"
      let ?m = "mergeBatch ty (filteredBatch ty (fetchConfig s) batch) (doClicks ?c s, ?l2)"
      let ?l4 = "(snd ?m)\<lparr>nextMaxId := Some (status_id (last batch)),
                          waits := waits (snd ?m) @ [(RateLimit, 400, ?c')]\<rparr>"
      have r4: "requests ?l4 = requests l @ [statusesUrl d a (fetchConfig s) l]"
        by (simp add: mergeBatch_frame)
      from loop_requests_grow [of d a ty "tl (tl clicks)" rs "doClicks ?c' (fst ?m)" ?l4]
      show ?thesis
        using Cons reply Batch r4
        by (auto simp: loop_page [OF ns np ne] mergeBatch_frame)
    qed
  qed
qed

text \<open>
  A page that neither limit cuts, in a walk towards older statuses that nobody
  interrupts: the page is merged whole, the cursor moves to its last item, and the loop
  goes round again.
\<close>

lemma loop_page_goes_on:
  assumes ns: "\<not> stopRef s" and np: "\<not> pausedRef s" and ne: "batch \<noteq> []"
    and ty: "ty \<noteq> Newer"
    and nd: "\<not> dateCut ty (fetchConfig s) batch"
    and nc: "\<not> countReached ty (fetchConfig s)
               (l\<lparr>sessionCollectedCount := sessionCollectedCount l + length batch\<rparr>)"
  shows "executeFetch_loop d a ty [] ((took, Batch batch) # rs) s l =
         executeFetch_loop d a ty [] rs
           (s\<lparr>allStatuses := allStatuses s @ batch,
              fetchCount := sessionCollectedCount l + length batch\<rparr>)
           (l\<lparr>requests := requests l @ [statusesUrl d a (fetchConfig s) l],
              sessionCollectedCount := sessionCollectedCount l + length batch,
              nextMaxId := Some (status_id (last batch)),
              waits := waits l @ [(PageRequest, took, []), (RateLimit, 400, [])]\<rparr>)"
proof -
  have fb: "filteredBatch ty (fetchConfig s) batch = batch"
    using nd by (simp add: filteredBatch_def)
  have nc': "\<not> countReached ty (fetchConfig s) l'"
    if "sessionCollectedCount l' = sessionCollectedCount l + length batch" for l'
    using nc that by (simp add: countReached_def)
  show ?thesis
    using nd ty ne
    by (simp add: loop_page [OF ns np ne] fb mergeBatch_def nc')
qed

lemma loop_page_next_request:
  assumes ns: "\<not> stopRef s" and np: "\<not> pausedRef s" and ne: "batch \<noteq> []"
    and ty: "ty \<noteq> Newer"
    and nd: "\<not> dateCut ty (fetchConfig s) batch"
    and nc: "\<not> countReached ty (fetchConfig s)
               (l\<lparr>sessionCollectedCount := sessionCollectedCount l + length batch\<rparr>)"
  shows "\<exists>ys. requests (snd (snd (executeFetch_loop d a ty [] ((took, Batch batch) # rs) s l)))
               = requests l @ [statusesUrl d a (fetchConfig s) l,
                               statusesUrl d a (fetchConfig s)
                                 (l\<lparr>nextMaxId := Some (status_id (last batch))\<rparr>)] @ ys"
proof -
  let ?s' = "s\<lparr>allStatuses := allStatuses s @ batch,
                fetchCount := sessionCollectedCount l + length batch\<rparr>"
  let ?l' = "l\<lparr>requests := requests l @ [statusesUrl d a (fetchConfig s) l],
                sessionCollectedCount := sessionCollectedCount l + length batch,
                nextMaxId := Some (status_id (last batch)),
                waits := waits l @ [(PageRequest, took, []), (RateLimit, 400, [])]\<rparr>"
  have ns': "\<not> stopRef ?s'" and np': "\<not> pausedRef ?s'"
    using ns np by simp_all
  have url: "statusesUrl d a (fetchConfig s) ?l' =
             statusesUrl d a (fetchConfig s) (l\<lparr>nextMaxId := Some (status_id (last batch))\<rparr>)"
    by (simp add: statusesUrl_def)
  from loop_requests_first [OF ns' np', of d a ty "[]" rs ?l']
  show ?thesis
    by (simp add: loop_page_goes_on [OF ns np ne ty nd nc] url)
qed

lemma loop_page_then_empty:
  assumes ns: "\<not> stopRef s" and np: "\<not> pausedRef s" and ne: "batch \<noteq> []"
    and ty: "ty \<noteq> Newer"
    and nd: "\<not> dateCut ty (fetchConfig s) batch"
    and nc: "\<not> countReached ty (fetchConfig s)
               (l\<lparr>sessionCollectedCount := sessionCollectedCount l + length batch\<rparr>)"
  shows "\<exists>s' l'. executeFetch_loop d a ty [] ((took, Batch batch) # (took', Batch []) # rs) s l
                  = (Exited, s', l')
           \<and> allStatuses s' = allStatuses s @ batch
           \<and> requests l' = requests l @ [statusesUrl d a (fetchConfig s) l,
                               statusesUrl d a (fetchConfig s)
                                 (l\<lparr>nextMaxId := Some (status_id (last batch))\<rparr>)]"
proof -
  let ?s' = "s\<lparr>allStatuses := allStatuses s @ batch,
                fetchCount := sessionCollectedCount l + length batch\<rparr>"
  let ?l' = "l\<lparr>requests := requests l @ [statusesUrl d a (fetchConfig s) l],
                sessionCollectedCount := sessionCollectedCount l + length batch,
                nextMaxId := Some (status_id (last batch)),
                waits := waits l @ [(PageRequest, took, []), (RateLimit, 400, [])]\<rparr>"
  have ns': "\<not> stopRef ?s'" and np': "\<not> pausedRef ?s'"
    using ns np by simp_all
  have url: "statusesUrl d a (fetchConfig s) ?l' =
             statusesUrl d a (fetchConfig s) (l\<lparr>nextMaxId := Some (status_id (last batch))\<rparr>)"
    by (simp add: statusesUrl_def)
  show ?thesis
    by (simp add: loop_page_goes_on [OF ns np ne ty nd nc] loop_empty_page [OF ns' np'] url)
qed

subsection \<open>The walker of \<open>app.js\<close>\<close>

lemma handleFetch_requests_grow:
  "\<exists>ys. requests_app (snd (snd (handleFetch_loop d a replies s l))) = requests_app l @ ys"
proof (induction replies arbitrary: s l)
  case Nil
  show ?case by simp
next
  case (Cons r rs)
  show ?case
  proof (cases r)
    case (Batch batch)
    show ?thesis
    proof (cases "batch = []")
      case True
      with Batch show ?thesis by simp
    next
      case False
      let ?l1 = "l\<lparr>requests_app := requests_app l @ [statusesUrl_app d a l]\<rparr>"
      let ?collected = "collectedStatuses ?l1 @ batch"
      from Cons.IH [of "s\<lparr>allStatuses := ?collected, fetchCount := length ?collected\<rparr>"
                       "?l1\<lparr>collectedStatuses := ?collected,
                            nextMaxId_app := Some (status_id (last batch))\<rparr>"]
      show ?thesis using Batch False by (auto simp: Let_def)
    qed
  qed simp_all
qed

lemma handleFetch_requests_first:
  "\<exists>ys. requests_app (snd (snd (handleFetch_loop d a replies s l)))
          = requests_app l @ [statusesUrl_app d a l] @ ys"
proof (cases replies)
  case Nil
  then show ?thesis by simp
next
  case (Cons r rs)
  show ?thesis
  proof (cases r)
    case (Batch batch)
    show ?thesis
    proof (cases "batch = []")
      case True
      with Cons Batch show ?thesis by simp
    next
      case False
      let ?l1 = "l\<lparr>requests_app := requests_app l @ [statusesUrl_app d a l]\<rparr>"
      let ?collected = "collectedStatuses ?l1 @ batch"
      from handleFetch_requests_grow [of d a rs
             "s\<lparr>allStatuses := ?collected, fetchCount := length ?collected\<rparr>"
             "?l1\<lparr>collectedStatuses := ?collected,
                  nextMaxId_app := Some (status_id (last batch))\<rparr>"]
      show ?thesis using Cons Batch False by (auto simp: Let_def)
    qed
  qed (use Cons in simp_all)
qed

lemma handleFetch_page_next_request:
  assumes "batch \<noteq> []"
  shows "\<exists>ys. requests_app (snd (snd (handleFetch_loop d a (Batch batch # rs) s l)))
          = requests_app l @ [statusesUrl_app d a l,
               statusesUrl_app d a (l\<lparr>nextMaxId_app := Some (status_id (last batch))\<rparr>)] @ ys"
proof -
  let ?l1 = "l\<lparr>requests_app := requests_app l @ [statusesUrl_app d a l]\<rparr>"
  let ?collected = "collectedStatuses ?l1 @ batch"
  let ?l2 = "?l1\<lparr>collectedStatuses := ?collected,
                  nextMaxId_app := Some (status_id (last batch))\<rparr>"
  have url: "statusesUrl_app d a ?l2 =
             statusesUrl_app d a (l\<lparr>nextMaxId_app := Some (status_id (last batch))\<rparr>)"
    by (simp add: statusesUrl_app_def)
  from handleFetch_requests_first [of d a rs
         "s\<lparr>allStatuses := ?collected, fetchCount := length ?collected\<rparr>" ?l2]
  show ?thesis using assms url by (auto simp: Let_def)
qed

subsection \<open>A short page\<close>

text \<open>
  Claim C2, amended.  In a walk of the \<open>initial\<close> or \<open>older\<close> direction a page that is not
  empty does not end the walk by being shorter than the forty items asked for.  Whatever
  its size, when neither the date limit cuts it nor the count limit is reached, and
  nobody clicks, the page is merged, the cursor moves to the id of its last item, and a
  further request is sent with that id as \<open>max_id\<close>.  The walk ends when that request (or
  a later one) brings an empty page.  The walker of \<open>app.js\<close> does the same.
\<close>

theorem short_page_goes_on:
  assumes "\<not> stopRef s" and "\<not> pausedRef s" and "ty \<noteq> Newer" and "batch \<noteq> []"
    and "\<not> dateCut ty (fetchConfig s) batch"
    and "\<not> countReached ty (fetchConfig s)
             (l\<lparr>sessionCollectedCount := sessionCollectedCount l + length batch\<rparr>)"
  shows "(\<exists>ys. requests (snd (snd (executeFetch_loop d a ty [] ((took, Batch batch) # rs) s l)))
               = requests l @ [statusesUrl d a (fetchConfig s) l,
                               statusesUrl d a (fetchConfig s)
                                 (l\<lparr>nextMaxId := Some (status_id (last batch))\<rparr>)] @ ys)
       \<and> (\<exists>s' l'. executeFetch_loop d a ty [] ((took, Batch batch) # (took', Batch []) # rs) s l
                  = (Exited, s', l')
             \<and> allStatuses s' = allStatuses s @ batch
             \<and> requests l' = requests l @ [statusesUrl d a (fetchConfig s) l,
                               statusesUrl d a (fetchConfig s)
                                 (l\<lparr>nextMaxId := Some (status_id (last batch))\<rparr>)])
       \<and> (\<exists>ys. requests_app (snd (snd (handleFetch_loop d a (Batch batch # rs') t k)))
               = requests_app k @ [statusesUrl_app d a k,
                    statusesUrl_app d a (k\<lparr>nextMaxId_app := Some (status_id (last batch))\<rparr>)] @ ys)"
proof (intro conjI)
  show "\<exists>ys. requests (snd (snd (executeFetch_loop d a ty [] ((took, Batch batch) # rs) s l)))
               = requests l @ [statusesUrl d a (fetchConfig s) l,
                               statusesUrl d a (fetchConfig s)
                                 (l\<lparr>nextMaxId := Some (status_id (last batch))\<rparr>)] @ ys"
    using assms by (intro loop_page_next_request)
next
  show "\<exists>s' l'. executeFetch_loop d a ty [] ((took, Batch batch) # (took', Batch []) # rs) s l
                  = (Exited, s', l')
             \<and> allStatuses s' = allStatuses s @ batch
             \<and> requests l' = requests l @ [statusesUrl d a (fetchConfig s) l,
                               statusesUrl d a (fetchConfig s)
                                 (l\<lparr>nextMaxId := Some (status_id (last batch))\<rparr>)]"
    using assms by (intro loop_page_then_empty)
next
  show "\<exists>ys. requests_app (snd (snd (handleFetch_loop d a (Batch batch # rs') t k)))
               = requests_app k @ [statusesUrl_app d a k,
                    statusesUrl_app d a (k\<lparr>nextMaxId_app := Some (status_id (last batch))\<rparr>)] @ ys"
    using assms(4) by (rule handleFetch_page_next_request)
qed

text \<open>An \<open>initial\<close> walk: a page of one status, then an empty page; two requests.\<close>

theorem short_page_witness:
  "\<not> stopRef ex_fresh \<and> \<not> pausedRef ex_fresh \<and> ex_short_page \<noteq> []
   \<and> \<not> dateCut Initial (fetchConfig ex_fresh) ex_short_page
   \<and> (\<exists>s' l'. executeFetch_loop ''alive.bar'' ''42'' Initial []
                  [(100, Batch ex_short_page), (90, Batch [])] ex_fresh (startLocals Initial ex_fresh)
                = (Exited, s', l')
           \<and> allStatuses s' = allStatuses ex_fresh @ ex_short_page
           \<and> length (requests l') = 2)"
proof -
  have a: "\<not> stopRef ex_fresh" and b: "\<not> pausedRef ex_fresh"
    by (simp_all add: ex_fresh_def initialState_def)
  have c: "Initial \<noteq> Newer" by simp
  have d: "ex_short_page \<noteq> []" by (simp add: ex_short_page_def)
  have e: "\<not> dateCut Initial (fetchConfig ex_fresh) ex_short_page"
    by (simp add: dateCut_def ex_fresh_def initialState_def)
  have f: "\<not> countReached Initial (fetchConfig ex_fresh)
             ((startLocals Initial ex_fresh)\<lparr>sessionCollectedCount :=
                sessionCollectedCount (startLocals Initial ex_fresh) + length ex_short_page\<rparr>)"
    by (simp add: countReached_def ex_fresh_def initialState_def)
  let ?l = "startLocals Initial ex_fresh"
  from short_page_goes_on [OF a b c d e f, where d = "''alive.bar''" and a = "''42''"
         and took = 100 and rs = "[]" and took' = 90 and rs' = "[]" and t = ex_fresh
         and k = startLocals_app]
  obtain s' l' where
    "executeFetch_loop ''alive.bar'' ''42'' Initial [] [(100, Batch ex_short_page), (90, Batch [])]
       ex_fresh ?l = (Exited, s', l')"
    and "allStatuses s' = allStatuses ex_fresh @ ex_short_page"
    and "requests l' = requests ?l @ [statusesUrl ''alive.bar'' ''42'' (fetchConfig ex_fresh) ?l,
           statusesUrl ''alive.bar'' ''42'' (fetchConfig ex_fresh)
             (?l\<lparr>nextMaxId := Some (status_id (last ex_short_page))\<rparr>)]"
    by blast
  moreover have "requests ?l = []" by (simp add: startLocals_def)
  ultimately show ?thesis using a b d e by simp
qed

text \<open>
  Claim C2 as stated fails: a page of one status, merged in an \<open>initial\<close> walk, an
  \<open>older\<close> walk and the walk of \<open>app.js\<close>, is each time followed by a second request.
\<close>

theorem short_page_counterexample:
  "ex_short_page \<noteq> [] \<and> length ex_short_page < 40
   \<and> requests (snd (snd (executeFetch Initial ex_env [] [(100, Batch ex_short_page)]
                         (initialState (Time 0) emptyStore))))
     = [''https://alive.bar/api/v1/accounts/42/statuses?limit=40&exclude_replies=true&exclude_reblogs=true'',
        ''https://alive.bar/api/v1/accounts/42/statuses?limit=40&exclude_replies=true&exclude_reblogs=true&max_id=7'']
   \<and> requests (snd (snd (executeFetch Older ex_env [] [(100, Batch ex_short_page)] ex_loaded)))
     = [''https://alive.bar/api/v1/accounts/42/statuses?limit=40&exclude_replies=true&exclude_reblogs=true&max_id=2'',
        ''https://alive.bar/api/v1/accounts/42/statuses?limit=40&exclude_replies=true&exclude_reblogs=true&max_id=7'']
   \<and> requests_app (snd (snd (handleFetch_loop ''alive.bar'' ''42'' [Batch ex_short_page] ex_fresh
                                startLocals_app)))
     = [''https://alive.bar/api/v1/accounts/42/statuses?exclude_replies=true&exclude_reblogs=true&limit=40'',
        ''https://alive.bar/api/v1/accounts/42/statuses?exclude_replies=true&exclude_reblogs=true&limit=40&max_id=7'']"
  by code_simp

subsection \<open>The date limit\<close>

text \<open>
  Claim C3.  In date-limited mode, in a walk that is not of the \<open>newer\<close> direction, let a
  page come back whose last (oldest) item is dated before the cutoff.  Then the statuses
  merged from that page are exactly those of the page dated at or after the cutoff,
  appended in their order, and the loop is left at once: the request for this page is
  the last one, whatever the server would answer to another and whatever is clicked.
\<close>

theorem date_limit_cuts_page:
  assumes "\<not> stopRef s" and "\<not> pausedRef s"
    and "mode (fetchConfig s) = Limit_date" and "ty \<noteq> Newer"
    and "batch \<noteq> []"
    and "time_lt (created_at (last batch)) (limitDate (fetchConfig s))"
  shows "\<exists>s' l'. executeFetch_loop d a ty clicks ((took, Batch batch) # rs) s l = (Exited, s', l')
           \<and> allStatuses s' =
               allStatuses s @ filter (\<lambda>x. time_ge (created_at x) (limitDate (fetchConfig s))) batch
           \<and> requests l' = requests l @ [statusesUrl d a (fetchConfig s) l]"
proof -
  have cut: "dateCut ty (fetchConfig s) batch"
    using assms(3,4,6) by (simp add: dateCut_def)
  then have fb: "filteredBatch ty (fetchConfig s) batch =
      filter (\<lambda>x. time_ge (created_at x) (limitDate (fetchConfig s))) batch"
    by (simp add: filteredBatch_def)
  let ?c = "case clicks of [] \<Rightarrow> [] | c # cs \<Rightarrow> c"
  let ?l2 = "l\<lparr>requests := requests l @ [statusesUrl d a (fetchConfig s) l],
               waits := waits l @ [(PageRequest, took, ?c)]\<rparr>"
  let ?m = "mergeBatch ty (filteredBatch ty (fetchConfig s) batch) (doClicks ?c s, ?l2)"
  have run: "executeFetch_loop d a ty clicks ((took, Batch batch) # rs) s l = (Exited, fst ?m, snd ?m)"
    using cut by (simp add: loop_page [OF assms(1,2,5)])
  have "allStatuses (fst ?m) =
          allStatuses s @ filter (\<lambda>x. time_ge (created_at x) (limitDate (fetchConfig s))) batch"
    using mergeBatch_older [OF assms(4)] fb by (simp add: doClicks_frame)
  moreover have "requests (snd ?m) = requests l @ [statusesUrl d a (fetchConfig s) l]"
    using mergeBatch_older [OF assms(4)] by simp
  ultimately show ?thesis using run by blast
qed

text \<open>
  Cutoff 25, a page dated 50, 40, 30, 20, 10: the first three are merged and the walk
  ends after its single request.
\<close>

theorem date_limit_witness:
  "\<not> stopRef ex_date_limited \<and> \<not> pausedRef ex_date_limited
   \<and> mode (fetchConfig ex_date_limited) = Limit_date
   \<and> time_lt (created_at (last ex_page5)) (limitDate (fetchConfig ex_date_limited))
   \<and> (\<exists>s' l'. executeFetch_loop ''alive.bar'' ''42'' Initial [] [(100, Batch ex_page5)]
                  ex_date_limited (startLocals Initial ex_date_limited) = (Exited, s', l')
           \<and> allStatuses s' = [ex_status ''5'' 50, ex_status ''4'' 40, ex_status ''3'' 30]
           \<and> length (requests l') = 1)"
proof -
  have a: "\<not> stopRef ex_date_limited" and b: "\<not> pausedRef ex_date_limited"
    and c: "mode (fetchConfig ex_date_limited) = Limit_date"
    and n: "limitDate (fetchConfig ex_date_limited) = Time 25"
    and e: "allStatuses ex_date_limited = []"
    by (simp_all add: ex_date_limited_def ex_fresh_def initialState_def)
  have t: "Initial \<noteq> Newer" by simp
  have d: "ex_page5 \<noteq> []" by (simp add: ex_page5_def)
  have k: "time_lt (created_at (last ex_page5)) (limitDate (fetchConfig ex_date_limited))"
    by (simp add: n ex_page5_def ex_status_def)
  have f: "filter (\<lambda>x. time_ge (created_at x) (Time 25)) ex_page5
           = [ex_status ''5'' 50, ex_status ''4'' 40, ex_status ''3'' 30]"
    by (simp add: ex_page5_def ex_status_def)
  from date_limit_cuts_page [OF a b c t d k, where l = "startLocals Initial ex_date_limited"
         and d = "''alive.bar''" and a = "''42''" and clicks = "[]" and took = 100 and rs = "[]"]
  show ?thesis using a b c k e n f by (auto simp: startLocals_def)
qed

subsection \<open>The count limit\<close>

text \<open>
  Claim C9.  In count-limited mode, in an \<open>initial\<close> walk, let a page come back.  If the
  number of statuses collected in this walk, that page included, is greater than or equal
  to the limit, the loop is left at once, with no further request, and the whole page has
  been appended: nothing of it beyond the limit is dropped.  If the number is still below
  the limit, the walk goes on to the next request.
\<close>

theorem count_limit_keeps_final_page:
  assumes "\<not> stopRef s" and "\<not> pausedRef s" and "mode (fetchConfig s) = Limit_count"
    and "batch \<noteq> []"
  shows "(limitCount (fetchConfig s) \<le> int (sessionCollectedCount l + length batch) \<longrightarrow>
           (\<exists>s' l'. executeFetch_loop d a Initial clicks ((took, Batch batch) # rs) s l
                      = (Exited, s', l')
              \<and> allStatuses s' = allStatuses s @ batch
              \<and> sessionCollectedCount l' = sessionCollectedCount l + length batch
              \<and> requests l' = requests l @ [statusesUrl d a (fetchConfig s) l]))
       \<and> (int (sessionCollectedCount l + length batch) < limitCount (fetchConfig s) \<longrightarrow>
           (\<exists>ys. requests (snd (snd (executeFetch_loop d a Initial [] ((took, Batch batch) # rs) s l)))
               = requests l @ [statusesUrl d a (fetchConfig s) l,
                               statusesUrl d a (fetchConfig s)
                                 (l\<lparr>nextMaxId := Some (status_id (last batch))\<rparr>)] @ ys))"
proof (intro conjI impI)
  assume reached: "limitCount (fetchConfig s) \<le> int (sessionCollectedCount l + length batch)"
  let ?c = "case clicks of [] \<Rightarrow> [] | c # cs \<Rightarrow> c"
  let ?l2 = "l\<lparr>requests := requests l @ [statusesUrl d a (fetchConfig s) l],
               waits := waits l @ [(PageRequest, took, ?c)]\<rparr>"
  let ?m = "mergeBatch Initial (filteredBatch Initial (fetchConfig s) batch) (doClicks ?c s, ?l2)"
  have nd: "\<not> dateCut Initial (fetchConfig s) batch"
    using assms(3) by (simp add: dateCut_def)
  then have fb: "filteredBatch Initial (fetchConfig s) batch = batch"
    by (simp add: filteredBatch_def)
  have m: "allStatuses (fst ?m) = allStatuses s @ batch"
      "sessionCollectedCount (snd ?m) = sessionCollectedCount l + length batch"
      "requests (snd ?m) = requests l @ [statusesUrl d a (fetchConfig s) l]"
    using mergeBatch_older [of Initial batch "doClicks ?c s" ?l2]
    by (simp_all add: fb doClicks_frame)
  have "countReached Initial (fetchConfig s) (snd ?m)"
    using assms(3) reached m(2) by (simp add: countReached_def)
  then have "executeFetch_loop d a Initial clicks ((took, Batch batch) # rs) s l
               = (Exited, fst ?m, snd ?m)"
    by (simp add: loop_page [OF assms(1,2,4)])
  with m show "\<exists>s' l'. executeFetch_loop d a Initial clicks ((took, Batch batch) # rs) s l
                      = (Exited, s', l')
              \<and> allStatuses s' = allStatuses s @ batch
              \<and> sessionCollectedCount l' = sessionCollectedCount l + length batch
              \<and> requests l' = requests l @ [statusesUrl d a (fetchConfig s) l]"
    by blast
next
  assume below: "int (sessionCollectedCount l + length batch) < limitCount (fetchConfig s)"
  have nd: "\<not> dateCut Initial (fetchConfig s) batch"
    using assms(3) by (simp add: dateCut_def)
  have nc: "\<not> countReached Initial (fetchConfig s)
               (l\<lparr>sessionCollectedCount := sessionCollectedCount l + length batch\<rparr>)"
    using below by (simp add: countReached_def)
  show "\<exists>ys. requests (snd (snd (executeFetch_loop d a Initial [] ((took, Batch batch) # rs) s l)))
               = requests l @ [statusesUrl d a (fetchConfig s) l,
                               statusesUrl d a (fetchConfig s)
                                 (l\<lparr>nextMaxId := Some (status_id (last batch))\<rparr>)] @ ys"
    by (rule loop_page_next_request [OF assms(1,2,4) _ nd nc]) simp
qed

text \<open>Limit three, first page of five: all five are kept and the walk ends.\<close>

theorem count_limit_witness:
  "\<not> stopRef ex_count_limited \<and> \<not> pausedRef ex_count_limited
   \<and> mode (fetchConfig ex_count_limited) = Limit_count \<and> limitCount (fetchConfig ex_count_limited) = 3
   \<and> length ex_page5 = 5
   \<and> (\<exists>s' l'. executeFetch_loop ''alive.bar'' ''42'' Initial [] [(100, Batch ex_page5)]
                  ex_count_limited (startLocals Initial ex_count_limited) = (Exited, s', l')
           \<and> allStatuses s' = ex_page5 \<and> length (requests l') = 1)"
proof -
  have a: "\<not> stopRef ex_count_limited" and b: "\<not> pausedRef ex_count_limited"
    and c: "mode (fetchConfig ex_count_limited) = Limit_count"
    and n: "limitCount (fetchConfig ex_count_limited) = 3"
    and e: "allStatuses ex_count_limited = []"
    by (simp_all add: ex_count_limited_def ex_fresh_def initialState_def)
  have d: "ex_page5 \<noteq> []" and k: "length ex_page5 = 5" by (simp_all add: ex_page5_def)
  from count_limit_keeps_final_page [OF a b c d, of "startLocals Initial ex_count_limited"
         "''alive.bar''" "''42''" "[]" 100 "[]"]
  show ?thesis using a b c n k e by (auto simp: startLocals_def)
qed

subsection \<open>The \<open>newer\<close> direction\<close>

lemma newer_turn:
  assumes ns: "\<not> stopRef s" and np: "\<not> pausedRef s"
  shows "length (requests (snd (snd (executeFetch_loop d a Newer clicks replies s l))))
           \<le> Suc (length (requests l))
       \<and> (allStatuses (fst (snd (executeFetch_loop d a Newer clicks replies s l))) = allStatuses s
          \<or> (\<exists>took batch rs. replies = (took, Batch batch) # rs
                \<and> allStatuses (fst (snd (executeFetch_loop d a Newer clicks replies s l)))
                    = batch @ allStatuses s))"
proof (cases replies)
  case Nil
  with ns np show ?thesis by (simp add: loop_in_flight)
next
  case (Cons reply rs)
  obtain took r where reply: "reply = (took, r)" by (cases reply)
  show ?thesis
  proof (cases r)
    case (Rejected m)
    with ns np Cons reply show ?thesis by (simp add: loop_rejected doClicks_frame)
  next
    case (NotOk m)
    with ns np Cons reply show ?thesis by (simp add: loop_not_ok doClicks_frame)
  next
    case (Batch batch)
    show ?thesis
    proof (cases "batch = []")
      case True
      with ns np Cons reply Batch show ?thesis by (simp add: loop_empty_page doClicks_frame)
    next
      case ne: False
      have fb: "filteredBatch Newer (fetchConfig s) batch = batch"
        by (simp add: filteredBatch_def dateCut_def)
      show ?thesis
        using Cons reply Batch
        by (simp add: loop_page [OF ns np ne] fb mergeBatch_newer doClicks_frame)
    qed
  qed
qed

lemma newer_loop_one_page:
  "length (requests (snd (snd (executeFetch_loop d a Newer clicks replies s l))))
     \<le> Suc (length (requests l))
   \<and> (allStatuses (fst (snd (executeFetch_loop d a Newer clicks replies s l))) = allStatuses s
      \<or> (\<exists>took batch rs. replies = (took, Batch batch) # rs
            \<and> allStatuses (fst (snd (executeFetch_loop d a Newer clicks replies s l)))
                = batch @ allStatuses s))"
proof (induction clicks arbitrary: s l)
  case Nil
  show ?case
  proof (cases "stopRef s")
    case True
    then show ?thesis by (simp add: loop_stopped)
  next
    case ns: False
    show ?thesis
    proof (cases "pausedRef s")
      case True
      with ns show ?thesis by (simp add: loop_paused_Nil)
    next
      case False
      with ns show ?thesis by (rule newer_turn)
    qed
  qed
next
  case (Cons c cs)
  show ?case
  proof (cases "stopRef s")
    case True
    then show ?thesis by (simp add: loop_stopped)
  next
    case ns: False
    show ?thesis
    proof (cases "pausedRef s")
      case True
      from Cons.IH [of "doClicks c s" "l\<lparr>waits := waits l @ [(PausePoll, 500, c)]\<rparr>"]
      show ?thesis by (simp add: loop_paused [OF ns True] doClicks_frame)
    next
      case False
      with ns show ?thesis by (rule newer_turn)
    qed
  qed
qed

lemma executeFetch_requests_newer:
  "length (requests (snd (snd (executeFetch Newer env clicks replies s)))) \<le> 1"
proof -
  let ?s1 = "s\<lparr>error := None, loading := True, fetchType := Some Newer, fetchCount := 0,
                stopRef := False, pausedRef := False, isPaused := False\<rparr>"
  obtain r s2 where res: "resolveAccount Newer env ?s1 = (r, s2)"
    by (cases "resolveAccount Newer env ?s1")
  show ?thesis
  proof (cases r)
    case (Inl e)
    with res show ?thesis by (simp add: executeFetch_def startLocals_def)
  next
    case (Inr da)
    obtain d a where da: "da = (d, a)" by (cases da)
    let ?R = "executeFetch_loop d a Newer clicks replies s2 (startLocals Newer s2)"
    have "length (requests (snd (snd ?R))) \<le> Suc (length (requests (startLocals Newer s2)))"
      using newer_loop_one_page [of d a clicks replies s2 "startLocals Newer s2"] by simp
    then have le: "length (requests (snd (snd ?R))) \<le> 1"
      by (simp add: startLocals_def)
    obtain e s3 l where R: "?R = (e, s3, l)" by (cases ?R)
    with le have "length (requests l) \<le> 1" by simp
    with res Inr da R show ?thesis
      by (cases e) (simp_all add: executeFetch_def)
  qed
qed

text \<open>
  The turn of the loop that receives a page, in a \<open>newer\<close> walk that is neither stopped
  nor paused: the loop is left, and the collection is the page followed by what was held.
\<close>

lemma newer_page_in_front:
  assumes ns: "\<not> stopRef s" and np: "\<not> pausedRef s"
  shows "fst (executeFetch_loop d a Newer clicks ((took, Batch batch) # rs) s l) = Exited
       \<and> allStatuses (fst (snd (executeFetch_loop d a Newer clicks ((took, Batch batch) # rs) s l)))
           = batch @ allStatuses s
       \<and> requests (snd (snd (executeFetch_loop d a Newer clicks ((took, Batch batch) # rs) s l)))
           = requests l @ [statusesUrl d a (fetchConfig s) l]
       \<and> sessionCollectedCount
           (snd (snd (executeFetch_loop d a Newer clicks ((took, Batch batch) # rs) s l)))
           = sessionCollectedCount l + length batch"
proof (cases "batch = []")
  case True
  then show ?thesis by (simp add: loop_empty_page [OF ns np] doClicks_frame)
next
  case ne: False
  have fb: "filteredBatch Newer (fetchConfig s) batch = batch"
    by (simp add: filteredBatch_def dateCut_def)
  show ?thesis
    by (simp add: loop_page [OF ns np ne] fb mergeBatch_def doClicks_frame)
qed

text \<open>The same after any number of pause polls: a loop that has sent its request.\<close>

lemma newer_request_prepends:
  "requests (snd (snd (executeFetch_loop d a Newer clicks ((took, Batch batch) # rs) s l)))
     \<noteq> requests l \<Longrightarrow>
   allStatuses (fst (snd (executeFetch_loop d a Newer clicks ((took, Batch batch) # rs) s l)))
     = batch @ allStatuses s"
proof (induction clicks arbitrary: s l)
  case Nil
  show ?case
  proof (cases "stopRef s")
    case True
    with Nil.prems show ?thesis by (simp add: loop_stopped)
  next
    case ns: False
    show ?thesis
    proof (cases "pausedRef s")
      case True
      with ns Nil.prems show ?thesis by (simp add: loop_paused_Nil)
    next
      case False
      with ns show ?thesis by (simp add: newer_page_in_front)
    qed
  qed
next
  case (Cons c cs)
  show ?case
  proof (cases "stopRef s")
    case True
    with Cons.prems show ?thesis by (simp add: loop_stopped)
  next
    case ns: False
    show ?thesis
    proof (cases "pausedRef s")
      case True
      from Cons.IH [of "doClicks c s" "l\<lparr>waits := waits l @ [(PausePoll, 500, c)]\<rparr>"] Cons.prems
      show ?thesis by (simp add: loop_paused [OF ns True] doClicks_frame)
    next
      case False
      with ns show ?thesis by (simp add: newer_page_in_front)
    qed
  qed
qed

text \<open>
  \<open>executeFetch('newer')\<close> as a whole, on a session with an account whose URL gives the
  host: the flags are reset before the loop, so the first reply is always received.
\<close>

lemma executeFetch_newer_prepends:
  assumes acc: "currentAccount s = Some acc" and host: "accountHost env = Some h"
  shows "fst (executeFetch Newer env clicks ((took, Batch batch) # rs) s) = Exited
       \<and> allStatuses (fst (snd (executeFetch Newer env clicks ((took, Batch batch) # rs) s)))
           = batch @ allStatuses s
       \<and> requests (snd (snd (executeFetch Newer env clicks ((took, Batch batch) # rs) s)))
           = [statusesUrl h (account_id acc) (fetchConfig s) (startLocals Newer s)]"
proof -
  let ?s0 = "s\<lparr>error := None, loading := True, fetchType := Some Newer, fetchCount := 0,
                stopRef := False, pausedRef := False, isPaused := False\<rparr>"
  let ?R = "executeFetch_loop h (account_id acc) Newer clicks ((took, Batch batch) # rs) ?s0
              (startLocals Newer ?s0)"
  have res: "resolveAccount Newer env ?s0 = (Inr (h, account_id acc), ?s0)"
    using acc host by (simp add: resolveAccount_def)
  have ns: "\<not> stopRef ?s0" and np: "\<not> pausedRef ?s0" by simp_all
  have sl: "startLocals Newer ?s0 = startLocals Newer s"
    by (simp add: startLocals_def)
  obtain e s3 l3 where R: "?R = (e, s3, l3)" by (cases ?R)
  from newer_page_in_front [OF ns np, of h "account_id acc" clicks took batch rs
         "startLocals Newer ?s0"] R
  have e: "e = Exited" and a: "allStatuses s3 = batch @ allStatuses s"
    and r: "requests l3 = [statusesUrl h (account_id acc) (fetchConfig s) (startLocals Newer s)]"
    by (simp_all add: sl) (simp add: startLocals_def)
  have frame: "allStatuses (cleanup (cacheData Newer env s3)) = allStatuses s3"
    by (simp add: cleanup_def cacheData_def split: option.splits)
  have "executeFetch Newer env clicks ((took, Batch batch) # rs) s
          = (Exited, cleanup (cacheData Newer env s3), l3)"
    using res R e by (simp add: executeFetch_def)
  with a r frame show ?thesis by simp
qed

text \<open>
  Claim C4.  A walk of the \<open>newer\<close> direction sends at most one request, whatever the
  server answers and the user clicks: this holds of \<open>executeFetch\<close> as a whole and of its
  loop from any state.  The size of the page plays no part, so a full page of forty does
  not make the walk ask for another.

  The page that is fetched goes in front of the collection.  The collection the loop
  leaves is the one it found, or the page followed by the one it found; and it is the
  page followed by the one it found whenever the loop has sent its request and the
  server answers with a page, so in particular when the loop starts neither stopped nor
  paused, where it is then left at once with one request more in its log.  For
  \<open>executeFetch('newer')\<close> as a whole, on a session with an account whose URL gives the
  host, a reply that is a page always ends the walk with that page in front of the
  collection held before, after the single request, whatever is clicked meanwhile.
\<close>

theorem newer_fetches_one_page:
  "length (requests (snd (snd (executeFetch Newer env clicks replies s)))) \<le> 1
   \<and> length (requests (snd (snd (executeFetch_loop d a Newer clicks replies s l))))
       \<le> Suc (length (requests l))
   \<and> (allStatuses (fst (snd (executeFetch_loop d a Newer clicks replies s l))) = allStatuses s
      \<or> (\<exists>took batch rs. replies = (took, Batch batch) # rs
            \<and> allStatuses (fst (snd (executeFetch_loop d a Newer clicks replies s l)))
                = batch @ allStatuses s))
   \<and> (requests (snd (snd (executeFetch_loop d a Newer clicks ((took, Batch batch) # rs) s l)))
         \<noteq> requests l \<longrightarrow>
       allStatuses (fst (snd (executeFetch_loop d a Newer clicks ((took, Batch batch) # rs) s l)))
         = batch @ allStatuses s)
   \<and> (\<not> stopRef s \<and> \<not> pausedRef s \<longrightarrow>
       fst (executeFetch_loop d a Newer clicks ((took, Batch batch) # rs) s l) = Exited
       \<and> allStatuses (fst (snd (executeFetch_loop d a Newer clicks ((took, Batch batch) # rs) s l)))
           = batch @ allStatuses s
       \<and> requests (snd (snd (executeFetch_loop d a Newer clicks ((took, Batch batch) # rs) s l)))
           = requests l @ [statusesUrl d a (fetchConfig s) l]
       \<and> sessionCollectedCount
           (snd (snd (executeFetch_loop d a Newer clicks ((took, Batch batch) # rs) s l)))
           = sessionCollectedCount l + length batch)
   \<and> (currentAccount s = Some acc \<and> accountHost env = Some h \<longrightarrow>
       fst (executeFetch Newer env clicks ((took, Batch batch) # rs) s) = Exited
       \<and> allStatuses (fst (snd (executeFetch Newer env clicks ((took, Batch batch) # rs) s)))
           = batch @ allStatuses s
       \<and> requests (snd (snd (executeFetch Newer env clicks ((took, Batch batch) # rs) s)))
           = [statusesUrl h (account_id acc) (fetchConfig s) (startLocals Newer s)])"
proof (intro conjI impI)
  show "length (requests (snd (snd (executeFetch Newer env clicks replies s)))) \<le> 1"
    by (rule executeFetch_requests_newer)
next
  show "length (requests (snd (snd (executeFetch_loop d a Newer clicks replies s l))))
          \<le> Suc (length (requests l))"
    using newer_loop_one_page [of d a clicks replies s l] by simp
next
  show "allStatuses (fst (snd (executeFetch_loop d a Newer clicks replies s l))) = allStatuses s
      \<or> (\<exists>took batch rs. replies = (took, Batch batch) # rs
            \<and> allStatuses (fst (snd (executeFetch_loop d a Newer clicks replies s l)))
                = batch @ allStatuses s)"
    using newer_loop_one_page [of d a clicks replies s l] by simp
next
  assume "requests (snd (snd (executeFetch_loop d a Newer clicks ((took, Batch batch) # rs) s l)))
            \<noteq> requests l"
  then show "allStatuses (fst (snd (executeFetch_loop d a Newer clicks ((took, Batch batch) # rs) s l)))
               = batch @ allStatuses s"
    by (rule newer_request_prepends)
next
  assume h: "\<not> stopRef s \<and> \<not> pausedRef s"
  then have ns: "\<not> stopRef s" and np: "\<not> pausedRef s" by simp_all
  note R = newer_page_in_front [OF ns np, of d a clicks took batch rs l]
  from R show "fst (executeFetch_loop d a Newer clicks ((took, Batch batch) # rs) s l) = Exited"
    by simp
  from R show "allStatuses (fst (snd (executeFetch_loop d a Newer clicks ((took, Batch batch) # rs) s l)))
                 = batch @ allStatuses s"
    by simp
  from R show "requests (snd (snd (executeFetch_loop d a Newer clicks ((took, Batch batch) # rs) s l)))
                 = requests l @ [statusesUrl d a (fetchConfig s) l]"
    by simp
  from R show "sessionCollectedCount
                 (snd (snd (executeFetch_loop d a Newer clicks ((took, Batch batch) # rs) s l)))
               = sessionCollectedCount l + length batch"
    by simp
next
  assume h: "currentAccount s = Some acc \<and> accountHost env = Some h"
  then have acc: "currentAccount s = Some acc" and host: "accountHost env = Some h" by simp_all
  note E = executeFetch_newer_prepends [OF acc host, of clicks took batch rs]
  from E show "fst (executeFetch Newer env clicks ((took, Batch batch) # rs) s) = Exited"
    by simp
  from E show "allStatuses (fst (snd (executeFetch Newer env clicks ((took, Batch batch) # rs) s)))
                 = batch @ allStatuses s"
    by simp
  from E show "requests (snd (snd (executeFetch Newer env clicks ((took, Batch batch) # rs) s)))
                 = [statusesUrl h (account_id acc) (fetchConfig s) (startLocals Newer s)]"
    by simp
qed

text \<open>
  The session of \<open>ex_loaded\<close>, neither stopped nor paused, asks for what is newer, and a
  full page of forty comes back, with another page ready behind it: the walk ends after
  its single request, which carries the id of the first status held as \<open>since_id\<close>, and
  the forty statuses stand in front of the two held before.
\<close>

theorem newer_fetches_one_page_witness:
  "\<not> stopRef ex_loaded \<and> \<not> pausedRef ex_loaded
   \<and> currentAccount ex_loaded = Some ex_account \<and> accountHost ex_env = Some ''alive.bar''
   \<and> length ex_full_page = 40 \<and> distinct (map status_id ex_full_page)
   \<and> status_id (hd ex_full_page) = ''139'' \<and> status_id (last ex_full_page) = ''100''
   \<and> fst (executeFetch Newer ex_env [] [(100, Batch ex_full_page), (100, Batch ex_full_page)]
            ex_loaded) = Exited
   \<and> allStatuses (fst (snd (executeFetch Newer ex_env []
           [(100, Batch ex_full_page), (100, Batch ex_full_page)] ex_loaded)))
       = ex_full_page @ [ex_status ''1'' 10, ex_status ''2'' 20]
   \<and> requests (snd (snd (executeFetch Newer ex_env []
           [(100, Batch ex_full_page), (100, Batch ex_full_page)] ex_loaded)))
       = [''https://alive.bar/api/v1/accounts/42/statuses?limit=40&exclude_replies=true&exclude_reblogs=true&since_id=1'']
   \<and> allStatuses (fst (snd (executeFetch_loop ''alive.bar'' ''42'' Newer []
           [(100, Batch ex_full_page), (100, Batch ex_full_page)] ex_loaded
           (startLocals Newer ex_loaded))))
       = ex_full_page @ [ex_status ''1'' 10, ex_status ''2'' 20]
   \<and> length (requests (snd (snd (executeFetch_loop ''alive.bar'' ''42'' Newer []
           [(100, Batch ex_full_page), (100, Batch ex_full_page)] ex_loaded
           (startLocals Newer ex_loaded))))) = 1"
proof -
  have a: "\<not> stopRef ex_loaded" and b: "\<not> pausedRef ex_loaded"
    and c: "currentAccount ex_loaded = Some ex_account"
    and sts: "allStatuses ex_loaded = [ex_status ''1'' 10, ex_status ''2'' 20]"
    and cfg: "excludeReplies (fetchConfig ex_loaded)" "excludeReblogs (fetchConfig ex_loaded)"
    by (simp_all add: ex_loaded_def initialState_def)
  have e: "accountHost ex_env = Some ''alive.bar''" by (simp add: ex_env_def)
  have n: "length ex_full_page = 40" by (simp add: ex_full_page_def)
  have ids: "distinct (map status_id ex_full_page)
             \<and> status_id (hd ex_full_page) = ''139'' \<and> status_id (last ex_full_page) = ''100''"
    by code_simp
  have url: "statusesUrl ''alive.bar'' (account_id ex_account) (fetchConfig ex_loaded)
               (startLocals Newer ex_loaded)
             = ''https://alive.bar/api/v1/accounts/42/statuses?limit=40&exclude_replies=true&exclude_reblogs=true&since_id=1''"
    by (simp add: statusesUrl_def startLocals_def sts cfg ex_account_def ex_status_def)
  have rq: "requests (startLocals Newer ex_loaded) = []" by (simp add: startLocals_def)
  from newer_fetches_one_page [where s = ex_loaded and env = ex_env and acc = ex_account
         and h = "''alive.bar''" and d = "''alive.bar''" and a = "''42''" and clicks = "[]"
         and took = 100 and batch = ex_full_page and rs = "[(100, Batch ex_full_page)]"
         and l = "startLocals Newer ex_loaded"
         and replies = "[(100, Batch ex_full_page), (100, Batch ex_full_page)]"]
  show ?thesis using a b c e n ids url sts rq by simp
qed

subsection \<open>Stopping\<close>










end
